theory Spec2Isabelle
  imports Complex_Main "HOL-Library.AList"
begin

section \<open>Python values\<close>

text \<open>
  The open key-value maps of the trace model (\<open>Dict[str, Any]\<close>) hold JSON-like Python
  values. A dict is an association list in insertion order, as a Python dict is.
\<close>

datatype pyval =
    PNone
  | PBool bool
  | PInt int
  | PFloat rat
  | PStr string
  | PDict "(string \<times> pyval) list"

type_synonym pydict = "(string \<times> pyval) list"

text \<open>Python truthiness (\<open>if x:\<close>, \<open>not x\<close>).\<close>

fun truthy :: "pyval \<Rightarrow> bool" where
  "truthy PNone = False"
| "truthy (PBool b) = b"
| "truthy (PInt i) = (i \<noteq> 0)"
| "truthy (PFloat q) = (q \<noteq> 0)"
| "truthy (PStr s) = (s \<noteq> [])"
| "truthy (PDict d) = (d \<noteq> [])"

text \<open>An exception object: the name of its class and what \<open>str\<close> gives for it.\<close>

datatype exception = Exception (type_name: string) (message: string)

section \<open>Python's division of integers\<close>

text \<open>
  \<open>a / b\<close> on two Python ints is a float: the IEEE binary64 number nearest to the exact
  quotient, ties going to the even significand, with gradual underflow;
  \<open>ZeroDivisionError\<close> when \<open>b\<close> is zero, and \<open>OverflowError\<close> when the rounded quotient is
  beyond the largest double. A float is modelled by its value, a rational (so the two
  zeros are one value; the division gives no infinity and no NaN).

  \<open>bit_length\<close> is Python's \<open>int.bit_length\<close>, \<open>ilog2 a\<close> the exponent \<open>e\<close> with
  \<open>2^e \<le> a < 2^(e+1)\<close> for a positive rational, \<open>round_double\<close> the rounding to 53
  significant bits, the exponent being at least \<open>-1022\<close>.
\<close>

fun bit_length :: "nat \<Rightarrow> nat" where
  "bit_length n = (if n = 0 then 0 else Suc (bit_length (n div 2)))"

definition ilog2 :: "rat \<Rightarrow> int" where
  "ilog2 a = (if 1 \<le> a then int (bit_length (nat \<lfloor>a\<rfloor>)) - 1
              else - int (bit_length (nat \<lceil>1 / a\<rceil> - 1)))"

definition round_half_even :: "rat \<Rightarrow> int" where
  "round_half_even x =
     (let f = \<lfloor>x\<rfloor>; d = x - of_int f
      in if d < 1 / 2 then f else if 1 / 2 < d then f + 1 else if even f then f else f + 1)"

definition round_double :: "rat \<Rightarrow> rat" where
  "round_double q =
     (if q = 0 then 0
      else let a = \<bar>q\<bar>;
               e = max (ilog2 a) (- 1022);
               ulp = 2 powi (e - 52)
           in sgn q * of_int (round_half_even (a / ulp)) * ulp)"

definition int_truediv :: "int \<Rightarrow> int \<Rightarrow> exception + rat" where
  "int_truediv a b =
     (if b = 0 then Inl (Exception ''ZeroDivisionError'' ''division by zero'')
      else let x = round_double (of_int a / of_int b)
           in if 2 ^ 1024 \<le> \<bar>x\<bar>
              then Inl (Exception ''OverflowError''
                          ''integer division result too large for a float'')
              else Inr x)"

section \<open>models.py\<close>

datatype RunStatus = RUNNING | SUCCESS | FAILURE | PARTIAL

datatype StepType = LLM | SEARCH | FILTER | RANK | SELECT | TRANSFORM | CUSTOM

text \<open>
  \<open>StepModel\<close>. Ids are drawn from a counter (\<open>uuid4\<close>), timestamps are numbers read from
  the clock, \<open>Optional\<close> fields are options.
\<close>

record StepModel =
  id_step :: nat
  run_id :: "nat option"
  step_name :: string
  step_type :: StepType
  sequence :: int
  start_time_step :: "nat option"
  end_time_step :: "nat option"
  inputs :: pydict
  outputs :: pydict
  reasoning :: string
  candidates_in :: "int option"
  candidates_out :: "int option"
  candidates_data :: "pydict list option"
  filters_applied :: pydict
  metadata_step :: pydict

text \<open>
  \<open>StepModel.reduction_rate\<close>. The guard \<open>self.candidates_in and ...\<close> tests the
  truthiness of \<open>candidates_in\<close>: \<open>None\<close> and \<open>0\<close> both fail it. The result is the float
  that \<open>/\<close> gives, or the exception that \<open>/\<close> raises.
\<close>

definition reduction_rate :: "StepModel \<Rightarrow> exception + rat option" where
  "reduction_rate self =
     (case (candidates_in self, candidates_out self) of
        (Some i, Some out) \<Rightarrow>
          if i \<noteq> 0 then
            (if i = 0 then Inr None
             else let eliminated = i - out
                  in case int_truediv eliminated i of
                       Inl e \<Rightarrow> Inl e
                     | Inr rate \<Rightarrow> Inr (Some rate))
          else Inr None
      | _ \<Rightarrow> Inr None)"

text \<open>\<open>RunModel\<close>.\<close>

record RunModel =
  id_run :: nat
  pipeline_name :: string
  pipeline_version :: string
  start_time_run :: nat
  end_time_run :: "nat option"
  status :: RunStatus
  metadata_run :: pydict
  final_output :: "pydict option"

text \<open>\<open>RunModel.mark_complete\<close>; \<open>utcnow\<close> is what the clock reads at the call.\<close>

definition mark_complete :: "RunModel \<Rightarrow> RunStatus \<Rightarrow> pydict option \<Rightarrow> nat \<Rightarrow> RunModel" where
  "mark_complete self status' final_output' utcnow =
     (let self = self\<lparr>end_time_run := Some utcnow\<rparr>;
          self = self\<lparr>status := status'\<rparr>
      in case final_output' of
           None \<Rightarrow> self
         | Some out \<Rightarrow> self\<lparr>final_output := Some out\<rparr>)"

text \<open>
  \<open>IngestPayload\<close> and its field validator \<open>validate_steps\<close>, which pydantic runs when the
  payload is constructed; its \<open>ValueError\<close> reaches the caller as pydantic's
  \<open>ValidationError\<close>.
\<close>

record IngestPayload =
  run :: RunModel
  steps_payload :: "StepModel list"

definition validate_steps :: "StepModel list \<Rightarrow> exception + StepModel list" where
  "validate_steps steps' =
     (if steps' \<noteq> [] then
        (let sequences = map sequence steps'
         in if sequences \<noteq> sort sequences
            then Inl (Exception ''ValidationError''
                        ''Steps must be in sequential order by sequence number'')
            else Inr steps')
      else Inr steps')"

definition IngestPayload_init :: "RunModel \<Rightarrow> StepModel list \<Rightarrow> exception + IngestPayload" where
  "IngestPayload_init run' steps' =
     (case validate_steps steps' of
        Inl e \<Rightarrow> Inl e
      | Inr validated \<Rightarrow> Inr \<lparr>run = run', steps_payload = validated\<rparr>)"

section \<open>sampling.py\<close>

text \<open>
  Python slicing \<open>xs[lo:hi]\<close>: an absent bound is \<open>None\<close>, a negative bound counts from
  the end, and every bound is clamped into \<open>0..len(xs)\<close>.
\<close>

definition clamp_index :: "nat \<Rightarrow> int \<Rightarrow> nat" where
  "clamp_index n i = (if i < 0 then nat (int n + i) else min n (nat i))"

definition slice :: "'a list \<Rightarrow> int option \<Rightarrow> int option \<Rightarrow> 'a list" where
  "slice xs lo hi =
     (let n = length xs;
          a = (case lo of None \<Rightarrow> 0 | Some i \<Rightarrow> clamp_index n i);
          b = (case hi of None \<Rightarrow> n | Some j \<Rightarrow> clamp_index n j)
      in drop a (take b xs))"

text \<open>
  \<open>random.sample(population, k)\<close> raises \<open>ValueError\<close> when \<open>k\<close> is negative or larger
  than the population, and otherwise returns the elements at \<open>k\<close> distinct positions.
  Which positions is the generator's choice: \<open>pick seed n k\<close> is the list of positions
  it picks among \<open>n\<close> for the call made in generator state \<open>seed\<close>, and every call
  moves the generator on. \<open>valid_choice\<close> says that the generator picks \<open>k\<close> distinct
  positions of the population, which is what \<open>random.sample\<close> guarantees.
\<close>

type_synonym picker = "nat \<Rightarrow> nat \<Rightarrow> nat \<Rightarrow> nat list"

definition valid_choice :: "picker \<Rightarrow> bool" where
  "valid_choice pick =
     (\<forall>seed n k. k \<le> n \<longrightarrow>
        length (pick seed n k) = k \<and> distinct (pick seed n k)
        \<and> (\<forall>i \<in> set (pick seed n k). i < n))"

definition random_sample :: "picker \<Rightarrow> nat \<Rightarrow> 'a list \<Rightarrow> int \<Rightarrow> exception + 'a list" where
  "random_sample pick seed population k =
     (if k < 0 \<or> int (length population) < k
      then Inl (Exception ''ValueError'' ''Sample larger than population or is negative'')
      else Inr (map (\<lambda>i. population ! i) (pick seed (length population) (nat k))))"

text \<open>
  \<open>sample_candidates\<close>. \<open>config_max\<close> is \<open>get_config().max_candidates_full_capture\<close>,
  read only when \<open>max_full_capture\<close> is \<open>None\<close>.
\<close>

definition sample_candidates ::
  "picker \<Rightarrow> nat \<Rightarrow> int \<Rightarrow> 'a list \<Rightarrow> int option \<Rightarrow> int \<Rightarrow> exception + 'a list" where
  "sample_candidates pick seed config_max candidates max_full_capture sample_size =
     (let max_full_capture = (case max_full_capture of None \<Rightarrow> config_max | Some m \<Rightarrow> m);
          total = int (length candidates)
      in if total \<le> max_full_capture then Inr candidates
         else
           let first_n = min sample_size total;
               sampled = slice candidates None (Some first_n);
               last_n = min sample_size total;
               sampled = (if total > sample_size
                          then sampled @ slice candidates (Some (- last_n)) None
                          else sampled)
           in if total > sample_size * 2 then
                (let middle = slice candidates (Some sample_size) (Some (- sample_size))
                 in if int (length middle) > sample_size then
                      (case random_sample pick seed middle
                              (min sample_size (int (length middle))) of
                         Inl e \<Rightarrow> Inl e
                       | Inr chosen \<Rightarrow> Inr (sampled @ chosen))
                    else Inr (sampled @ middle))
              else Inr sampled)"

text \<open>
  \<open>sample_candidates_stratified\<close>. A candidate is a dict; \<open>candidate.get(strata_key)\<close>
  is \<open>None\<close> when the key is absent and when its value is Python's \<open>None\<close>, so a candidate
  is a map from field names to optional values, \<open>'v\<close> being the hashable values other
  than \<open>None\<close>. The \<open>strata\<close> dict is an association list in insertion order.
\<close>

type_synonym 'v candidate = "string \<Rightarrow> 'v option option"

definition candidate_get :: "'v candidate \<Rightarrow> string \<Rightarrow> 'v option" where
  "candidate_get candidate key = (case candidate key of None \<Rightarrow> None | Some v \<Rightarrow> v)"

definition strata_append ::
  "'v \<Rightarrow> 'c \<Rightarrow> ('v \<times> 'c list) list \<Rightarrow> ('v \<times> 'c list) list" where
  \<comment> \<open>\<open>if key not in strata: strata[key] = []\<close>, then \<open>strata[key].append(candidate)\<close>\<close>
  "strata_append key candidate strata =
     (let strata = (if map_of strata key = None then strata @ [(key, [])] else strata)
      in map (\<lambda>(k, members). if k = key then (k, members @ [candidate]) else (k, members))
           strata)"

fun group_strata ::
  "string \<Rightarrow> 'v candidate list \<Rightarrow> ('v \<times> 'v candidate list) list
     \<Rightarrow> ('v \<times> 'v candidate list) list" where
  "group_strata strata_key [] strata = strata"
| "group_strata strata_key (candidate # rest) strata =
     (case candidate_get candidate strata_key of
        None \<Rightarrow> group_strata strata_key rest strata
      | Some key \<Rightarrow> group_strata strata_key rest (strata_append key candidate strata))"

fun sample_strata ::
  "picker \<Rightarrow> nat \<Rightarrow> 'a list list \<Rightarrow> int \<Rightarrow> 'a list \<Rightarrow> exception + 'a list" where
  "sample_strata pick seed [] samples_per_stratum sampled = Inr sampled"
| "sample_strata pick seed (stratum_candidates # rest) samples_per_stratum sampled =
     (if int (length stratum_candidates) \<le> samples_per_stratum
      then sample_strata pick seed rest samples_per_stratum (sampled @ stratum_candidates)
      else (case random_sample pick seed stratum_candidates samples_per_stratum of
              Inl e \<Rightarrow> Inl e
            | Inr chosen \<Rightarrow>
                sample_strata pick (Suc seed) rest samples_per_stratum (sampled @ chosen)))"

definition sample_candidates_stratified ::
  "picker \<Rightarrow> nat \<Rightarrow> 'v candidate list \<Rightarrow> string \<Rightarrow> int \<Rightarrow> exception + 'v candidate list" where
  "sample_candidates_stratified pick seed candidates strata_key samples_per_stratum =
     (let strata = group_strata strata_key candidates []
      in sample_strata pick seed (map snd strata) samples_per_stratum [])"

text \<open>
  Two relations used to state what the two loops of \<open>sample_candidates_stratified\<close>
  establish: \<open>grouped\<close> holds of the \<open>strata\<close> dict once the candidates \<open>cs\<close> have been
  grouped, \<open>kept\<close> relates a stratum to what is taken from it.
\<close>

definition grouped ::
  "string \<Rightarrow> 'v candidate list \<Rightarrow> ('v \<times> 'v candidate list) list \<Rightarrow> bool" where
  "grouped key cs strata \<longleftrightarrow> distinct (map fst strata)
     \<and> (\<forall>(k, g) \<in> set strata. g = filter (\<lambda>c. candidate_get c key = Some k) cs \<and> g \<noteq> [])
     \<and> set (map fst strata) = {k. \<exists>c \<in> set cs. candidate_get c key = Some k}"

definition kept :: "int \<Rightarrow> 'a list \<Rightarrow> 'a list \<Rightarrow> bool" where
  "kept K g sel \<longleftrightarrow> set sel \<subseteq> set g \<and> length sel = min (length g) (nat K)
      \<and> (int (length g) \<le> K \<longrightarrow> sel = g)"

text \<open>
  The groups as the specification speaks of them: the group of a value is the candidates
  that carry it in the grouping field, in input order, and the group values are the
  distinct values that occur.
\<close>

definition stratum :: "string \<Rightarrow> 'v \<Rightarrow> 'v candidate list \<Rightarrow> 'v candidate list" where
  "stratum strata_key key cs = filter (\<lambda>c. candidate_get c strata_key = Some key) cs"

definition strata_keys :: "string \<Rightarrow> 'v candidate list \<Rightarrow> 'v list" where
  "strata_keys strata_key cs = remdups (List.map_filter (\<lambda>c. candidate_get c strata_key) cs)"

section \<open>config.py\<close>

datatype FallbackMode = SILENT | LOG | RAISE

text \<open>
  \<open>FallbackMode\<close> is a \<open>str\<close> enum: a member compares equal to its string, so that
  \<open>mode == FallbackMode.RAISE\<close> holds of the member and of the plain string \<open>"raise"\<close>
  alike. The model keeps the string.
\<close>

fun FallbackMode_value :: "FallbackMode \<Rightarrow> pyval" where
  "FallbackMode_value SILENT = PStr ''silent''"
| "FallbackMode_value LOG = PStr ''log''"
| "FallbackMode_value RAISE = PStr ''raise''"

text \<open>
  \<open>XRayConfig\<close>. The fields hold Python values: \<open>configure\<close> assigns to an existing
  configuration with \<open>setattr\<close>, which does not validate.
\<close>

record XRayConfig =
  api_url :: pyval
  enabled :: pyval
  fallback_mode :: pyval
  fallback_log_path :: pyval
  timeout_seconds :: pyval
  async_mode :: pyval
  max_candidates_full_capture :: pyval
  sample_size_large :: pyval
  sample_size_medium :: pyval
  verbose :: pyval










text \<open>
  The module's global \<open>_config\<close> is an \<open>XRayConfig option\<close>, passed in and returned.
  \<open>kwargs\<close> is the keyword dict of the call, in the order the caller wrote it.
\<close>

definition get_config :: "XRayConfig \<Rightarrow> XRayConfig option \<Rightarrow> XRayConfig \<times> XRayConfig option" where
  "get_config defaults config_global =
     (case config_global of
        None \<Rightarrow> (defaults, Some defaults)
      | Some c \<Rightarrow> (c, Some c))"






section \<open>The state of the process and its surroundings\<close>

text \<open>
  Run and step contexts are objects that the program mutates and refers to from several
  places (the context variables, a step's back-reference to its run, the run's list
  of steps), so they live in a store and are named by references. A run's \<open>steps\<close> list
  holds references to the step models, each owned by the step context of the same
  reference. Field names drop the leading underscore of the source.
\<close>

record RunContext =
  run_model :: RunModel
  steps :: "nat list"
  auto_send :: bool
  sequence_counter :: int
  previous_run_context :: "nat option"

record StepContext =
  run_context :: nat
  step_model :: StepModel
  previous_step_context :: "nat option"

text \<open>
  The world: the two stores with their allocation counters, the supply of fresh ids, the
  two context variables, the global \<open>_config\<close>, and what delivery leaves behind: the
  requests posted, the background threads started, the fallback files written (each
  with its timestamp and run id).
\<close>

record world =
  run_contexts :: "nat \<Rightarrow> RunContext"
  step_contexts :: "nat \<Rightarrow> StepContext"
  next_run :: nat
  next_step :: nat
  next_uuid :: nat
  current_run_context :: "nat option"
  current_step_context :: "nat option"
  config_global :: "XRayConfig option"
  http_posts :: "IngestPayload list"
  threads :: "IngestPayload list"
  log_files :: "(nat \<times> nat \<times> IngestPayload) list"

text \<open>
  What a call meets outside the program: the class defaults of \<open>XRayConfig\<close> (read from
  the environment), the clock, what \<open>httpx.post\<close> does (a response with its status code,
  or one of the exceptions the client distinguishes), and whether the fallback file
  can be written.
\<close>

datatype post_outcome =
    Response nat
  | TimeoutException exception
  | ConnectError exception
  | OtherException exception

record runtime =
  class_defaults :: XRayConfig
  clock :: nat
  http_post :: post_outcome
  write_ok :: bool

section \<open>client.py\<close>

text \<open>\<open>XRayClient._write_to_log\<close>: any failure inside is caught and gives \<open>False\<close>.\<close>

definition write_to_log :: "XRayConfig \<Rightarrow> IngestPayload \<Rightarrow> runtime \<Rightarrow> world \<Rightarrow> bool \<times> world" where
  "write_to_log config payload rt w =
     (if write_ok rt
      then (True, w\<lparr>log_files := log_files w @ [(clock rt, id_run (run payload), payload)]\<rparr>)
      else (False, w))"

text \<open>
  \<open>XRayClient._handle_failure\<close>. The message of the synthesized \<open>RuntimeError\<close> ends with
  the configured URL (a string whenever it was validated; the text of any other value
  is left empty).
\<close>

definition handle_failure ::
  "XRayConfig \<Rightarrow> IngestPayload \<Rightarrow> exception option \<Rightarrow> runtime \<Rightarrow> world
     \<Rightarrow> (exception + bool) \<times> world" where
  "handle_failure config payload exception' rt w =
     (let mode = fallback_mode config
      in if mode = FallbackMode_value SILENT then (Inr False, w)
         else if mode = FallbackMode_value LOG then
           (case write_to_log config payload rt w of (written, w') \<Rightarrow> (Inr written, w'))
         else if mode = FallbackMode_value RAISE then
           (case exception' of
              Some e \<Rightarrow> (Inl e, w)
            | None \<Rightarrow>
                (Inl (Exception ''RuntimeError''
                        (''Failed to send trace to X-Ray API at ''
                           @ (case api_url config of PStr url \<Rightarrow> url | _ \<Rightarrow> []))), w))
         else (Inr False, w))"

text \<open>
  \<open>XRayClient.send\<close>, for a client whose \<open>self.config\<close> is \<open>config\<close>. The call of
  \<open>_handle_failure\<close> for a response other than 200 and 201 stands inside the \<open>try\<close>: what
  it raises is caught by \<open>except Exception\<close> and handled once more.
\<close>

definition send ::
  "XRayConfig \<Rightarrow> IngestPayload \<Rightarrow> runtime \<Rightarrow> world \<Rightarrow> (exception + bool) \<times> world" where
  "send config payload rt w =
     (if \<not> truthy (enabled config) then (Inr True, w)
      else
        let w = w\<lparr>http_posts := http_posts w @ [payload]\<rparr>
        in case http_post rt of
             Response status_code \<Rightarrow>
               if status_code = 200 \<or> status_code = 201 then (Inr True, w)
               else (case handle_failure config payload None rt w of
                       (Inl e, w') \<Rightarrow> handle_failure config payload (Some e) rt w'
                     | (Inr handled, w') \<Rightarrow> (Inr handled, w'))
           | TimeoutException e \<Rightarrow> handle_failure config payload (Some e) rt w
           | ConnectError e \<Rightarrow> handle_failure config payload (Some e) rt w
           | OtherException e \<Rightarrow> handle_failure config payload (Some e) rt w)"

text \<open>
  \<open>XRayClient.send_async\<close> starts a thread that will run \<open>send\<close> and returns; nothing the
  thread does reaches the caller.
\<close>

definition send_async :: "XRayConfig \<Rightarrow> IngestPayload \<Rightarrow> world \<Rightarrow> world" where
  "send_async config payload w = w\<lparr>threads := threads w @ [payload]\<rparr>"

text \<open>
  \<open>send_trace\<close>: \<open>XRayClient()\<close> and \<open>get_config()\<close> both read the global configuration,
  creating the default one when there is none.
\<close>

definition send_trace :: "IngestPayload \<Rightarrow> runtime \<Rightarrow> world \<Rightarrow> (exception + bool) \<times> world" where
  "send_trace payload rt w =
     (let (client_config, g) = get_config (class_defaults rt) (config_global w);
          (config, g) = get_config (class_defaults rt) g;
          w = w\<lparr>config_global := g\<rparr>
      in if truthy (async_mode config) then (Inr True, send_async client_config payload w)
         else send client_config payload rt w)"

section \<open>context.py\<close>

definition get_current_run :: "world \<Rightarrow> nat option" where
  "get_current_run w = current_run_context w"

definition get_current_step :: "world \<Rightarrow> nat option" where
  "get_current_step w = current_step_context w"

text \<open>\<open>RunContext.__init__\<close>: allocates the context; \<open>metadata or {}\<close>.\<close>

definition RunContext_init ::
  "string \<Rightarrow> string \<Rightarrow> pydict option \<Rightarrow> bool \<Rightarrow> runtime \<Rightarrow> world \<Rightarrow> nat \<times> world" where
  "RunContext_init name version metadata auto_send' rt w =
     (let self = next_run w;
          model = \<lparr>id_run = next_uuid w, pipeline_name = name, pipeline_version = version,
                   start_time_run = clock rt, end_time_run = None, status = RUNNING,
                   metadata_run = (case metadata of None \<Rightarrow> [] | Some m \<Rightarrow> m),
                   final_output = None\<rparr>;
          rc = \<lparr>run_model = model, steps = [], auto_send = auto_send',
                sequence_counter = 0, previous_run_context = None\<rparr>
      in (self, w\<lparr>run_contexts := (run_contexts w)(self := rc),
                   next_run := Suc self, next_uuid := Suc (next_uuid w)\<rparr>))"

definition RunContext_enter :: "nat \<Rightarrow> world \<Rightarrow> world" where
  "RunContext_enter self w =
     (let rc = (run_contexts w self)\<lparr>previous_run_context := current_run_context w\<rparr>;
          w = w\<lparr>run_contexts := (run_contexts w)(self := rc)\<rparr>
      in w\<lparr>current_run_context := Some self\<rparr>)"

text \<open>
  \<open>RunContext.__exit__\<close>; \<open>exc\<close> is the escaping exception, if any. The result is what
  \<open>__exit__\<close> returns (always \<open>False\<close>) or what it raises: the construction of the payload
  and \<open>send_trace\<close> can raise, and then the statements after them do not run.
\<close>

definition RunContext_exit ::
  "nat \<Rightarrow> exception option \<Rightarrow> runtime \<Rightarrow> world \<Rightarrow> (exception + bool) \<times> world" where
  "RunContext_exit self exc rt w =
     (let status' = (if exc = None then SUCCESS else FAILURE);
          rc = run_contexts w self;
          rc = rc\<lparr>run_model := mark_complete (run_model rc) status' None (clock rt)\<rparr>;
          w = w\<lparr>run_contexts := (run_contexts w)(self := rc)\<rparr>;
          restore = (\<lambda>w. w\<lparr>current_run_context := previous_run_context (run_contexts w self)\<rparr>)
      in if auto_send rc then
           (case IngestPayload_init (run_model rc)
                   (map (\<lambda>s. step_model (step_contexts w s)) (steps rc)) of
              Inl e \<Rightarrow> (Inl e, w)
            | Inr payload \<Rightarrow>
                (case send_trace payload rt w of
                   (Inl e, w') \<Rightarrow> (Inl e, w')
                 | (Inr sent, w') \<Rightarrow> (Inr False, restore w')))
         else (Inr False, restore w))"

text \<open>\<open>RunContext.step\<close>: the new step context takes the counter's value, then the counter moves.\<close>

definition RunContext_step :: "nat \<Rightarrow> string \<Rightarrow> StepType \<Rightarrow> world \<Rightarrow> nat \<times> world" where
  "RunContext_step self name type w =
     (let step_context = next_step w;
          model = \<lparr>id_step = next_uuid w, run_id = None, step_name = name, step_type = type,
                   sequence = sequence_counter (run_contexts w self),
                   start_time_step = None, end_time_step = None, inputs = [], outputs = [],
                   reasoning = [], candidates_in = None, candidates_out = None,
                   candidates_data = None, filters_applied = [], metadata_step = []\<rparr>;
          sc = \<lparr>run_context = self, step_model = model, previous_step_context = None\<rparr>;
          w = w\<lparr>step_contexts := (step_contexts w)(step_context := sc),
                 next_step := Suc step_context, next_uuid := Suc (next_uuid w)\<rparr>;
          rc = run_contexts w self;
          rc = rc\<lparr>sequence_counter := sequence_counter rc + 1\<rparr>
      in (step_context, w\<lparr>run_contexts := (run_contexts w)(self := rc)\<rparr>))"

text \<open>\<open>RunContext.add_step\<close>, for the model of step context \<open>s\<close>.\<close>

definition add_step :: "nat \<Rightarrow> nat \<Rightarrow> world \<Rightarrow> world" where
  "add_step self s w =
     (let sc = step_contexts w s;
          sc = sc\<lparr>step_model := (step_model sc)\<lparr>run_id := Some (id_run (run_model (run_contexts w self)))\<rparr>\<rparr>;
          w = w\<lparr>step_contexts := (step_contexts w)(s := sc)\<rparr>;
          rc = run_contexts w self
      in w\<lparr>run_contexts := (run_contexts w)(self := rc\<lparr>steps := steps rc @ [s]\<rparr>)\<rparr>)"

definition set_metadata :: "nat \<Rightarrow> string \<Rightarrow> pyval \<Rightarrow> world \<Rightarrow> world" where
  "set_metadata self key val w =
     (let rc = run_contexts w self;
          model = (run_model rc)\<lparr>metadata_run := AList.update key val (metadata_run (run_model rc))\<rparr>
      in w\<lparr>run_contexts := (run_contexts w)(self := rc\<lparr>run_model := model\<rparr>)\<rparr>)"

definition set_final_output :: "nat \<Rightarrow> pydict \<Rightarrow> world \<Rightarrow> world" where
  "set_final_output self output w =
     (let rc = run_contexts w self;
          model = (run_model rc)\<lparr>final_output := Some output\<rparr>
      in w\<lparr>run_contexts := (run_contexts w)(self := rc\<lparr>run_model := model\<rparr>)\<rparr>)"

text \<open>A change of the model of step context \<open>s\<close>.\<close>

definition update_step_model :: "nat \<Rightarrow> (StepModel \<Rightarrow> StepModel) \<Rightarrow> world \<Rightarrow> world" where
  "update_step_model s f w =
     (let sc = step_contexts w s
      in w\<lparr>step_contexts := (step_contexts w)(s := sc\<lparr>step_model := f (step_model sc)\<rparr>)\<rparr>)"

definition StepContext_enter :: "nat \<Rightarrow> runtime \<Rightarrow> world \<Rightarrow> world" where
  "StepContext_enter self rt w =
     (let w = update_step_model self (\<lambda>m. m\<lparr>start_time_step := Some (clock rt)\<rparr>) w;
          sc = (step_contexts w self)\<lparr>previous_step_context := current_step_context w\<rparr>;
          w = w\<lparr>step_contexts := (step_contexts w)(self := sc)\<rparr>
      in w\<lparr>current_step_context := Some self\<rparr>)"

text \<open>\<open>StepContext.__exit__\<close>: nothing in it raises, and it returns \<open>False\<close>.\<close>

definition StepContext_exit ::
  "nat \<Rightarrow> exception option \<Rightarrow> runtime \<Rightarrow> world \<Rightarrow> (exception + bool) \<times> world" where
  "StepContext_exit self exc rt w =
     (let w = update_step_model self (\<lambda>m. m\<lparr>end_time_step := Some (clock rt)\<rparr>) w;
          w = (case exc of
                 None \<Rightarrow> w
               | Some e \<Rightarrow>
                   update_step_model self
                     (\<lambda>m. m\<lparr>metadata_step :=
                         AList.update ''exception''
                           (PDict [(''type'', PStr (type_name e)), (''message'', PStr (message e))])
                           (metadata_step m)\<rparr>) w);
          w = add_step (run_context (step_contexts w self)) self w
      in (Inr False, w\<lparr>current_step_context := previous_step_context (step_contexts w self)\<rparr>))"

text \<open>
  The setters of a step context. \<open>set_candidates\<close> is the call without candidate data
  (\<open>data=None\<close>), which stores the two counts and samples nothing.
\<close>

datatype step_call =
    SetInputs pydict
  | SetOutputs pydict
  | SetReasoning string
  | SetCandidates int int
  | SetFilters pydict
  | AddMetadata string pyval
  | UpdateMetadata pydict

fun call_step :: "nat \<Rightarrow> step_call \<Rightarrow> world \<Rightarrow> world" where
  "call_step self (SetInputs d) w = update_step_model self (\<lambda>m. m\<lparr>inputs := d\<rparr>) w"
| "call_step self (SetOutputs d) w = update_step_model self (\<lambda>m. m\<lparr>outputs := d\<rparr>) w"
| "call_step self (SetReasoning r) w = update_step_model self (\<lambda>m. m\<lparr>reasoning := r\<rparr>) w"
| "call_step self (SetCandidates i out) w =
     update_step_model self
       (\<lambda>m. m\<lparr>candidates_in := Some i, candidates_out := Some out, candidates_data := None\<rparr>) w"
| "call_step self (SetFilters d) w = update_step_model self (\<lambda>m. m\<lparr>filters_applied := d\<rparr>) w"
| "call_step self (AddMetadata key val) w =
     update_step_model self (\<lambda>m. m\<lparr>metadata_step := AList.update key val (metadata_step m)\<rparr>) w"
| "call_step self (UpdateMetadata d) w =
     update_step_model self
       (\<lambda>m. m\<lparr>metadata_step := foldl (\<lambda>md (key, val). AList.update key val md) (metadata_step m) d\<rparr>) w"

section \<open>Programs that use the contexts\<close>

text \<open>
  Python's \<open>with\<close> statement over the world: \<open>enter\<close>, then the body; \<open>exit\<close> receives the
  exception that escapes the body, if any. What \<open>exit\<close> raises replaces it; otherwise it
  is raised again unless \<open>exit\<close> returned a true value.
\<close>

definition with_stmt ::
  "(world \<Rightarrow> world) \<Rightarrow> (exception option \<Rightarrow> world \<Rightarrow> (exception + bool) \<times> world)
     \<Rightarrow> (world \<Rightarrow> (exception + unit) \<times> world) \<Rightarrow> world \<Rightarrow> (exception + unit) \<times> world" where
  "with_stmt enter exit body w =
     (case body (enter w) of
        (Inr u, w1) \<Rightarrow>
          (case exit None w1 of
             (Inl e', w2) \<Rightarrow> (Inl e', w2)
           | (Inr suppress, w2) \<Rightarrow> (Inr (), w2))
      | (Inl e, w1) \<Rightarrow>
          (case exit (Some e) w1 of
             (Inl e', w2) \<Rightarrow> (Inl e', w2)
           | (Inr suppress, w2) \<Rightarrow> if suppress then (Inr (), w2) else (Inl e, w2)))"

text \<open>
  Two statements of a block, one after the other: an exception that leaves the first
  ends the block.
\<close>

definition then_stmt ::
  "(world \<Rightarrow> (exception + unit) \<times> world) \<Rightarrow> (world \<Rightarrow> (exception + unit) \<times> world)
     \<Rightarrow> world \<Rightarrow> (exception + unit) \<times> world" where
  "then_stmt first second w =
     (case first w of
        (Inl e, w1) \<Rightarrow> (Inl e, w1)
      | (Inr u, w1) \<Rightarrow> second w1)"

text \<open>
  \<open>with RunContext(name, version, metadata, auto_send) as run: body\<close> and
  \<open>with run.step(name, type) as step: body\<close>; \<open>rt_in\<close> and \<open>rt_out\<close> are the surroundings at
  entry and at exit.
\<close>

definition with_run ::
  "string \<Rightarrow> string \<Rightarrow> pydict option \<Rightarrow> bool \<Rightarrow> runtime \<Rightarrow> runtime
     \<Rightarrow> (nat \<Rightarrow> world \<Rightarrow> (exception + unit) \<times> world) \<Rightarrow> world \<Rightarrow> (exception + unit) \<times> world" where
  "with_run name version metadata auto_send' rt_in rt_out body w =
     (case RunContext_init name version metadata auto_send' rt_in w of
        (r, w1) \<Rightarrow> with_stmt (RunContext_enter r) (\<lambda>exc. RunContext_exit r exc rt_out) (body r) w1)"

definition with_step ::
  "nat \<Rightarrow> string \<Rightarrow> StepType \<Rightarrow> runtime \<Rightarrow> runtime
     \<Rightarrow> (nat \<Rightarrow> world \<Rightarrow> (exception + unit) \<times> world) \<Rightarrow> world \<Rightarrow> (exception + unit) \<times> world" where
  "with_step r name type rt_in rt_out body w =
     (case RunContext_step r name type w of
        (s, w1) \<Rightarrow> with_stmt (StepContext_enter s rt_in) (\<lambda>exc. StepContext_exit s exc rt_out) (body s) w1)"

text \<open>A step body: calls of the step's setters, then, perhaps, \<open>raise e\<close>.\<close>

definition step_body ::
  "step_call list \<Rightarrow> exception option \<Rightarrow> nat \<Rightarrow> world \<Rightarrow> (exception + unit) \<times> world" where
  "step_body calls raised s w =
     (let w = foldl (\<lambda>w c. call_step s c w) w calls
      in case raised of None \<Rightarrow> (Inr (), w) | Some e \<Rightarrow> (Inl e, w))"

text \<open>
  A run body that runs its steps one after the other, each \<open>with\<close> block closed before
  the next step is created; an exception that leaves a step ends the body.
\<close>

fun sequential_steps ::
  "(string \<times> StepType \<times> step_call list \<times> exception option) list \<Rightarrow> runtime \<Rightarrow> nat
     \<Rightarrow> world \<Rightarrow> (exception + unit) \<times> world" where
  "sequential_steps [] rt r w = (Inr (), w)"
| "sequential_steps ((name, type, calls, raised) # rest) rt r w =
     (case with_step r name type rt rt (step_body calls raised) w of
        (Inl e, w') \<Rightarrow> (Inl e, w')
      | (Inr u, w') \<Rightarrow> sequential_steps rest rt r w')"

text \<open>The sequence numbers of the steps attached to run \<open>r\<close>, in the order of its list.\<close>

definition attached_sequences :: "nat \<Rightarrow> world \<Rightarrow> int list" where
  "attached_sequences r w =
     map (\<lambda>s. sequence (step_model (step_contexts w s))) (steps (run_contexts w r))"

text \<open>
  The exception that a synchronous \<open>send\<close> raises, if it raises: only in raise mode, with
  tracing enabled, when the request fails.
\<close>

definition raised_by_send :: "XRayConfig \<Rightarrow> runtime \<Rightarrow> exception option" where
  "raised_by_send config rt =
     (if \<not> truthy (enabled config) \<or> fallback_mode config \<noteq> FallbackMode_value RAISE then None
      else case http_post rt of
             Response status_code \<Rightarrow>
               if status_code = 200 \<or> status_code = 201 then None
               else Some (Exception ''RuntimeError''
                            (''Failed to send trace to X-Ray API at ''
                               @ (case api_url config of PStr url \<Rightarrow> url | _ \<Rightarrow> [])))
           | TimeoutException e \<Rightarrow> Some e
           | ConnectError e \<Rightarrow> Some e
           | OtherException e \<Rightarrow> Some e)"

text \<open>The exception that the delivery at the exit of a run scope raises, if it raises.\<close>

definition raised_by_delivery :: "bool \<Rightarrow> runtime \<Rightarrow> world \<Rightarrow> exception option" where
  "raised_by_delivery auto_send' rt w =
     (let config = fst (get_config (class_defaults rt) (config_global w))
      in if auto_send' \<and> \<not> truthy (async_mode config) then raised_by_send config rt else None)"

text \<open>A process that has created no context yet, with the given global configuration.\<close>

definition new_world :: "XRayConfig option \<Rightarrow> world" where
  "new_world config =
     \<lparr>run_contexts = (\<lambda>r. \<lparr>run_model = \<lparr>id_run = 0, pipeline_name = [], pipeline_version = [],
                               start_time_run = 0, end_time_run = None, status = RUNNING,
                               metadata_run = [], final_output = None\<rparr>,
                             steps = [], auto_send = False, sequence_counter = 0,
                             previous_run_context = None\<rparr>),
      step_contexts = (\<lambda>s. \<lparr>run_context = 0,
                              step_model = \<lparr>id_step = 0, run_id = None, step_name = [],
                                step_type = CUSTOM, sequence = 0, start_time_step = None,
                                end_time_step = None, inputs = [], outputs = [], reasoning = [],
                                candidates_in = None, candidates_out = None,
                                candidates_data = None, filters_applied = [],
                                metadata_step = []\<rparr>,
                              previous_step_context = None\<rparr>),
      next_run = 0, next_step = 0, next_uuid = 0,
      current_run_context = None, current_step_context = None,
      config_global = config, http_posts = [], threads = [], log_files = []\<rparr>"

text \<open>
  A configuration for tests, as \<open>test_fallback_raise_mode\<close> sets it: tracing enabled,
  synchronous delivery, the given fallback mode.
\<close>

definition test_config :: "FallbackMode \<Rightarrow> XRayConfig" where
  "test_config mode =
     \<lparr>api_url = PStr ''http://localhost:9999'', enabled = PBool True,
      fallback_mode = FallbackMode_value mode, fallback_log_path = PStr ''.xray/failed_traces/'',
      timeout_seconds = PFloat 1, async_mode = PBool False,
      max_candidates_full_capture = PInt 100, sample_size_large = PInt 50,
      sample_size_medium = PInt 100, verbose = PBool False\<rparr>"

text \<open>Surroundings in which the API cannot be reached.\<close>

definition unreachable :: "nat \<Rightarrow> runtime" where
  "unreachable now =
     \<lparr>class_defaults = test_config SILENT, clock = now,
      http_post = ConnectError (Exception ''ConnectError'' ''connection refused''),
      write_ok = True\<rparr>"

section \<open>Properties\<close>

subsection \<open>Reduction rate\<close>

declare bit_length.simps [simp del]

lemma bit_length_bounds:
  "0 < n \<Longrightarrow> 2 ^ (bit_length n - 1) \<le> n \<and> n < 2 ^ bit_length n"
proof (induction n rule: bit_length.induct)
  case (1 n)
  show ?case
  proof (cases "n div 2 = 0")
    case True
    with "1.prems" have "n = 1" by (simp add: div_eq_0_iff) 
    then show ?thesis by (simp add: bit_length.simps)
  next
    case False
    then have p: "0 < n div 2" by simp
    from "1.IH"[OF _ p] "1.prems"
    have ih: "2 ^ (bit_length (n div 2) - 1) \<le> n div 2" "n div 2 < 2 ^ bit_length (n div 2)"
      by simp_all
    have bl: "bit_length n = Suc (bit_length (n div 2))"
      using "1.prems" by (subst bit_length.simps) simp
    have pos: "0 < bit_length (n div 2)" using p by (subst bit_length.simps) simp
    have "2 ^ (bit_length n - 1) = 2 * 2 ^ (bit_length (n div 2) - 1)"
      using bl pos by (cases "bit_length (n div 2)") simp_all
    also have "\<dots> \<le> 2 * (n div 2)" using ih(1) by simp
    also have "\<dots> \<le> n" by simp
    finally have lo: "2 ^ (bit_length n - 1) \<le> n" .
    have "n < 2 * (n div 2) + 2" by presburger
    also have "\<dots> \<le> 2 * 2 ^ bit_length (n div 2)" using ih(2) by simp
    finally have "n < 2 ^ bit_length n" using bl by simp
    with lo show ?thesis by simp
  qed
qed

lemma ilog2_bounds:
  assumes "0 < a"
  shows "2 powi (ilog2 a) \<le> a \<and> a < 2 powi (ilog2 a + 1)"
proof (cases "1 \<le> a")
    case True
    let ?n = "nat \<lfloor>a\<rfloor>"
    have n: "0 < ?n" using True by simp
    have il: "ilog2 a = int (bit_length ?n) - 1" using True by (simp add: ilog2_def)
    have blpos: "0 < bit_length ?n" using n by (subst bit_length.simps) simp
    from bit_length_bounds[OF n] have b: "2 ^ (bit_length ?n - 1) \<le> ?n" "?n < 2 ^ bit_length ?n"
      by simp_all
    have e1: "(2::rat) powi (ilog2 a) = 2 ^ (bit_length ?n - 1)"
      using blpos unfolding il by (simp add: power_int_def nat_diff_distrib')
    have e2: "(2::rat) powi (ilog2 a + 1) = 2 ^ bit_length ?n"
      unfolding il by (simp add: power_int_def)
    have "(2::rat) ^ (bit_length ?n - 1) \<le> of_nat ?n"
      using b(1) by (metis of_nat_le_iff of_nat_numeral of_nat_power)
    also have "\<dots> = of_int \<lfloor>a\<rfloor>" using True by simp
    also have "\<dots> \<le> a" by simp
    finally have lo: "2 powi (ilog2 a) \<le> a" unfolding e1 .
    from b(2) have "Suc ?n \<le> 2 ^ bit_length ?n" by (rule Suc_leI)
    then have "(of_nat (Suc ?n) :: rat) \<le> 2 ^ bit_length ?n"
      by (metis of_nat_le_iff of_nat_numeral of_nat_power)
    moreover have "a < of_nat (Suc ?n)"
    proof -
      have "a < of_int \<lfloor>a\<rfloor> + 1" by linarith
      also have "\<dots> = of_nat (Suc ?n)" using True by simp
      finally show ?thesis .
    qed
    ultimately have "a < 2 powi (ilog2 a + 1)" unfolding e2 by simp
    with lo show ?thesis by simp
next
    case False
    then have a1: "a < 1" by simp
    define m where "m = nat \<lceil>1 / a\<rceil>"
    define k where "k = bit_length (m - 1)"
    have inv: "1 < 1 / a" using assms a1 by simp
    then have c: "1 < \<lceil>1 / a\<rceil>" by (simp add: less_ceiling_iff)
    then have "(2::int) \<le> \<lceil>1 / a\<rceil>" by linarith
    then have "nat 2 \<le> m" unfolding m_def by (rule nat_mono)
    then have m2: "2 \<le> m" by simp
    then have m: "0 < m - 1" by linarith
    have il: "ilog2 a = - int k" using False by (simp add: ilog2_def k_def m_def)
    from bit_length_bounds[OF m] have b: "2 ^ (k - 1) \<le> m - 1" "m - 1 < 2 ^ k"
      unfolding k_def by simp_all
    have kpos: "0 < k" unfolding k_def using m by (subst bit_length.simps) simp
    have mm: "(of_nat m :: rat) = of_int \<lceil>1 / a\<rceil>" unfolding m_def using c by simp
    from b(2) have "m \<le> 2 ^ k" by linarith
    then have "(of_nat m :: rat) \<le> 2 ^ k"
      by (metis of_nat_le_iff of_nat_numeral of_nat_power)
    moreover have "1 / a \<le> of_nat m" unfolding mm by simp
    ultimately have "1 / a \<le> 2 ^ k" by (rule order_trans[rotated])
    then have "1 \<le> 2 ^ k * a" using assms by (simp add: field_simps)
    then have "1 / 2 ^ k \<le> a" by (simp add: field_simps)
    moreover have "(2::rat) powi (ilog2 a) = 1 / 2 ^ k"
      unfolding il by (simp add: power_int_minus field_simps)
    ultimately have lo: "2 powi (ilog2 a) \<le> a" by simp
    have "(2::rat) ^ (k - 1) \<le> of_nat (m - 1)"
      using b(1) by (metis of_nat_le_iff of_nat_numeral of_nat_power)
    also have "\<dots> = of_nat m - 1" using m2 by simp
    also have "\<dots> = of_int \<lceil>1 / a\<rceil> - 1" unfolding mm ..
    also have "\<dots> < 1 / a" by linarith
    finally have "(2::rat) ^ (k - 1) < 1 / a" .
    then have "2 ^ (k - 1) * a < 1" using assms by (simp add: field_simps)
    then have lt: "a < 1 / 2 ^ (k - 1)" by (simp add: field_simps)
    obtain j where j: "k = Suc j" using kpos by (cases k) auto
    have "(2::rat) powi (ilog2 a + 1) = 1 / 2 ^ (k - 1)"
    proof -
      have "ilog2 a + 1 = - int j" unfolding il j by simp
      then show ?thesis unfolding j by (simp add: power_int_minus field_simps)
    qed
    with lt lo show ?thesis by simp
qed

lemma round_half_even_error: "\<bar>of_int (round_half_even x) - x\<bar> \<le> 1 / 2"
  unfolding round_half_even_def Let_def
  by (auto simp: abs_if) linarith+

lemma round_half_even_le: "x \<le> of_int k \<Longrightarrow> round_half_even x \<le> k"
proof -
  assume x: "x \<le> of_int k"
  then have f: "\<lfloor>x\<rfloor> \<le> k" by (simp add: floor_le_iff) 
  show ?thesis
  proof (cases "\<lfloor>x\<rfloor> = k")
    case True
    then have "x = of_int k" using x by (metis of_int_floor_le order_antisym)
    then show ?thesis by (simp add: round_half_even_def Let_def)
  next
    case False
    with f have "\<lfloor>x\<rfloor> + 1 \<le> k" by simp
    then show ?thesis by (auto simp: round_half_even_def Let_def)
  qed
qed

lemma round_half_even_nonneg: "0 \<le> x \<Longrightarrow> 0 \<le> round_half_even x"
  by (auto simp: round_half_even_def Let_def)


lemma round_double_error:
  "\<bar>round_double q - q\<bar> \<le> max (\<bar>q\<bar> / 2 ^ 53) (1 / 2 ^ 1075)"
proof (cases "q = 0")
  case True
  then show ?thesis by (simp add: round_double_def)
next
  case False
  define a where "a = \<bar>q\<bar>"
  define e where "e = max (ilog2 a) (- 1022)"
  define ulp :: rat where "ulp = 2 powi (e - 52)"
  define r where "r = round_half_even (a / ulp)"
  have apos: "0 < a" using False by (simp add: a_def)
  have upos: "0 < ulp" by (simp add: ulp_def)
  have rd: "round_double q = sgn q * of_int r * ulp"
    using False by (simp add: round_double_def Let_def a_def e_def ulp_def r_def)
  have q: "q = sgn q * a" by (simp add: a_def sgn_if)
  have "\<bar>round_double q - q\<bar> = \<bar>sgn q * (of_int r * ulp - a)\<bar>"
    unfolding rd by (subst (2) q) (simp add: algebra_simps)
  also have "\<dots> = \<bar>of_int r * ulp - a\<bar>" using False by (simp add: abs_mult sgn_if)
  also have "\<dots> = \<bar>of_int r - a / ulp\<bar> * ulp"
  proof -
    have "of_int r * ulp - a = (of_int r - a / ulp) * ulp" using upos by (simp add: field_simps)
    then show ?thesis using upos by (simp add: abs_mult)
  qed
  also have "\<dots> \<le> (1 / 2) * ulp"
    using round_half_even_error[of "a / ulp"] upos unfolding r_def
    by (intro mult_right_mono) simp_all
  finally have half: "\<bar>round_double q - q\<bar> \<le> ulp / 2" by simp
  show ?thesis
  proof (cases "- 1022 \<le> ilog2 a")
    case True
    then have "e = ilog2 a" by (simp add: e_def)
    then have "ulp = 2 powi (ilog2 a) / 2 ^ 52" by (simp add: ulp_def power_int_diff)
    also have "\<dots> \<le> a / 2 ^ 52" using ilog2_bounds[OF apos] by (simp add: divide_right_mono)
    finally have "ulp / 2 \<le> a / 2 ^ 53" by simp
    with half show ?thesis unfolding a_def by linarith
  next
    case False
    then have "e = - 1022" by (simp add: e_def)
    then have "ulp = 1 / 2 ^ 1074" by (simp add: ulp_def power_int_minus field_simps)
    then have "ulp / 2 = 1 / 2 ^ 1075" by simp
    with half show ?thesis by linarith
  qed
qed

lemma round_double_unit:
  assumes "0 \<le> q" "q \<le> 1"
  shows "0 \<le> round_double q \<and> round_double q \<le> 1"
proof (cases "q = 0")
  case True
  then show ?thesis by (simp add: round_double_def)
next
  case False
  define e where "e = max (ilog2 q) (- 1022)"
  define ulp :: rat where "ulp = 2 powi (e - 52)"
  define r where "r = round_half_even (q / ulp)"
  have qpos: "0 < q" using False assms by simp
  have upos: "0 < ulp" by (simp add: ulp_def)
  have rd: "round_double q = of_int r * ulp"
    using qpos by (simp add: round_double_def Let_def e_def ulp_def r_def)
  have "2 powi (ilog2 q) \<le> (1::rat)" using ilog2_bounds[OF qpos] assms(2) by linarith
  then have "ilog2 q \<le> 0"
    by (metis one_less_power_int one_less_numeral_iff semiring_norm(76) less_le_not_le linorder_not_less)
  then have e0: "e \<le> 0" by (simp add: e_def)
  define n where "n = nat (52 - e)"
  have un: "ulp = 1 / 2 ^ n"
  proof -
    have eq: "e - 52 = - int n" using e0 by (simp add: n_def)
    have "ulp = 2 powi (- int n)" unfolding ulp_def eq ..
    also have "\<dots> = inverse (2 ^ n)" by (simp add: power_int_minus)
    finally show ?thesis by (simp add: field_simps)
  qed
  have "q / ulp \<le> 1 / ulp" using assms(2) upos by (simp add: divide_right_mono)
  also have "\<dots> = of_int (2 ^ n)" by (simp add: un)
  finally have "r \<le> 2 ^ n" unfolding r_def by (rule round_half_even_le)
  then have "(of_int r :: rat) \<le> 2 ^ n" by (metis of_int_le_iff of_int_numeral of_int_power)
  then have "of_int r * ulp \<le> 2 ^ n * ulp" using upos by (simp add: mult_right_mono)
  also have "\<dots> = 1" by (simp add: un)
  finally have hi: "round_double q \<le> 1" unfolding rd .
  have "0 \<le> q / ulp" using qpos upos by simp
  then have "0 \<le> r" unfolding r_def by (rule round_half_even_nonneg)
  then have "0 \<le> round_double q" unfolding rd using upos by simp
  with hi show ?thesis by simp
qed


lemma round_half_even_ge: "of_int k \<le> x \<Longrightarrow> k \<le> round_half_even x"
proof -
  assume "of_int k \<le> x"
  then have "k \<le> \<lfloor>x\<rfloor>" by (simp add: le_floor_iff)
  then show ?thesis by (auto simp: round_half_even_def Let_def)
qed

lemma round_double_large:
  assumes "2 ^ 1024 \<le> \<bar>q\<bar>"
  shows "2 ^ 1024 \<le> \<bar>round_double q\<bar>"
proof -
  define a where "a = \<bar>q\<bar>"
  define e where "e = ilog2 a"
  define ulp :: rat where "ulp = 2 powi (e - 52)"
  define r where "r = round_half_even (a / ulp)"
  have "(0::rat) < 2 ^ 1024" by (rule zero_less_power) simp
  from this assms have apos: "0 < a" unfolding a_def by (rule less_le_trans)
  have q0: "q \<noteq> 0" using apos by (auto simp: a_def)
  have upos: "0 < ulp" by (simp add: ulp_def)
  have "(2::rat) powi 1024 \<le> a" using assms by (simp add: a_def)
  also have "\<dots> < 2 powi (e + 1)" using ilog2_bounds[OF apos] by (simp add: e_def)
  finally have lt: "(2::rat) powi 1024 < 2 powi (e + 1)" .
  have "(1024::int) < e + 1"
  proof (rule ccontr)
    assume "\<not> 1024 < e + 1"
    then have "e + 1 \<le> 1024" by simp
    then have "(2::rat) powi (e + 1) \<le> 2 powi 1024" by (intro power_int_increasing) simp_all
    with lt show False by simp
  qed
  then have e: "1024 \<le> e" by simp
  then have emax: "max (ilog2 a) (- 1022) = e" by (simp add: e_def)
  have rd: "\<bar>round_double q\<bar> = \<bar>of_int r\<bar> * ulp"
    using q0 upos
    by (simp add: round_double_def Let_def a_def[symmetric] emax ulp_def[symmetric] r_def
                  abs_mult sgn_if)
  have ue: "2 ^ 52 * ulp = 2 powi e"
  proof -
    have "(2::rat) powi e = 2 powi (52 + (e - 52))" by simp
    also have "\<dots> = 2 powi 52 * 2 powi (e - 52)" by (rule power_int_add) simp
    finally show ?thesis by (simp add: ulp_def)
  qed
  have "2 ^ 52 * ulp \<le> a" unfolding ue using ilog2_bounds[OF apos] by (simp add: e_def)
  then have "of_int (2 ^ 52) \<le> a / ulp" using upos by (simp add: field_simps)
  then have "2 ^ 52 \<le> r" unfolding r_def by (rule round_half_even_ge)
  then have "(2::rat) ^ 52 \<le> of_int r" by (metis of_int_le_iff of_int_numeral of_int_power)
  then have "2 ^ 52 * ulp \<le> \<bar>of_int r\<bar> * ulp" using upos by (intro mult_right_mono) simp_all
  moreover have "(2::rat) powi 1024 \<le> 2 powi e" using e by (intro power_int_increasing) simp_all
  ultimately show ?thesis unfolding rd ue by simp
qed

lemma ilog2_third: "ilog2 (1 / 3) = - 2"
proof -
  have "bit_length 2 = 2" by code_simp
  then show ?thesis by (simp add: ilog2_def)
qed

lemma round_double_third: "round_double (1 / 3) = 6004799503160661 / 18014398509481984"
proof -
  have p: "(2::rat) powi (- 54) = 1 / 18014398509481984"
    by (simp add: power_int_minus field_simps)
  have f: "\<lfloor>(18014398509481984::rat) / 3\<rfloor> = 6004799503160661"
    by (rule floor_unique) simp_all
  have r: "round_half_even (18014398509481984 / 3) = 6004799503160661"
    by (simp add: round_half_even_def Let_def f)
  show ?thesis by (simp add: round_double_def ilog2_third p r Let_def)
qed

text \<open>
  C5, as the code has it: a step with \<open>candidates_in = I > 0\<close> and \<open>candidates_out = O\<close>
  has as \<open>reduction_rate\<close> the double nearest to \<open>(I - O) / I\<close>. It is within the relative
  error \<open>2^-53\<close> of the quotient (\<open>2^-1075\<close> absolutely, for a quotient below the normal
  range), it lies between 0 and 1 when \<open>0 \<le> O \<le> I\<close>, and the property raises
  \<open>OverflowError\<close> instead when the quotient is \<open>2^1024\<close> or more in magnitude. A step with
  \<open>candidates_in = 0\<close> has no reduction rate (\<open>None\<close>, not zero), and nothing is divided.
\<close>

theorem reduction_rate_spec:
  "(candidates_in s = Some I \<and> 0 < I \<and> candidates_out s = Some O' \<longrightarrow>
      reduction_rate s
        = (if 2 ^ 1024 \<le> \<bar>round_double (of_int (I - O') / of_int I)\<bar>
           then Inl (Exception ''OverflowError''
                       ''integer division result too large for a float'')
           else Inr (Some (round_double (of_int (I - O') / of_int I))))
      \<and> \<bar>round_double (of_int (I - O') / of_int I) - of_int (I - O') / of_int I\<bar>
          \<le> max (\<bar>of_int (I - O') / of_int I\<bar> / 2 ^ 53) (1 / 2 ^ 1075)
      \<and> (0 \<le> O' \<and> O' \<le> I \<longrightarrow>
            (\<exists>x. reduction_rate s = Inr (Some x) \<and> 0 \<le> x \<and> x \<le> 1))
      \<and> (2 ^ 1024 \<le> \<bar>(of_int (I - O') :: rat) / of_int I\<bar> \<longrightarrow>
            reduction_rate s = Inl (Exception ''OverflowError''
                                      ''integer division result too large for a float'')))
   \<and> (candidates_in s = Some 0 \<longrightarrow> reduction_rate s = Inr None)"
proof (intro conjI impI)
  assume h: "candidates_in s = Some I \<and> 0 < I \<and> candidates_out s = Some O'"
  let ?q = "(of_int (I - O') :: rat) / of_int I"
  show eq: "reduction_rate s
        = (if 2 ^ 1024 \<le> \<bar>round_double ?q\<bar>
           then Inl (Exception ''OverflowError''
                       ''integer division result too large for a float'')
           else Inr (Some (round_double ?q)))"
    using h by (simp add: reduction_rate_def int_truediv_def Let_def)
  show "\<bar>round_double ?q - ?q\<bar> \<le> max (\<bar>?q\<bar> / 2 ^ 53) (1 / 2 ^ 1075)"
    by (rule round_double_error)
  show "\<exists>x. reduction_rate s = Inr (Some x) \<and> 0 \<le> x \<and> x \<le> 1" if "0 \<le> O' \<and> O' \<le> I"
  proof -
    have "0 \<le> ?q" "?q \<le> 1" using h that by (simp_all add: field_simps)
    from round_double_unit[OF this] have u: "0 \<le> round_double ?q" "round_double ?q \<le> 1"
      by simp_all
    have "\<bar>round_double ?q\<bar> \<le> 1" using u by simp
    moreover have "(1::rat) < 2 ^ 1024" by (rule one_less_power) simp_all
    ultimately have "\<not> 2 ^ 1024 \<le> \<bar>round_double ?q\<bar>" by linarith
    then have "reduction_rate s = Inr (Some (round_double ?q))" unfolding eq by simp
    with u show ?thesis by blast
  qed
  show "reduction_rate s = Inl (Exception ''OverflowError''
                                  ''integer division result too large for a float'')"
    if "2 ^ 1024 \<le> \<bar>?q\<bar>"
    unfolding eq using round_double_large[OF that] by simp
next
  assume "candidates_in s = Some 0"
  then show "reduction_rate s = Inr None"
    by (simp add: reduction_rate_def split: option.splits)
qed

theorem reduction_rate_spec_witness:
  "(\<exists>x. reduction_rate \<lparr>id_step = 7, run_id = None, step_name = ''filter'', step_type = FILTER,
      sequence = 1, start_time_step = None, end_time_step = None, inputs = [], outputs = [],
      reasoning = [], candidates_in = Some 500, candidates_out = Some 40,
      candidates_data = None, filters_applied = [], metadata_step = []\<rparr> = Inr (Some x)
        \<and> 0 \<le> x \<and> x \<le> 1)
   \<and> reduction_rate \<lparr>id_step = 8, run_id = None, step_name = ''search'', step_type = SEARCH,
      sequence = 0, start_time_step = None, end_time_step = None, inputs = [], outputs = [],
      reasoning = [], candidates_in = Some 0, candidates_out = Some 0,
      candidates_data = None, filters_applied = [], metadata_step = []\<rparr> = Inr None
   \<and> reduction_rate \<lparr>id_step = 9, run_id = None, step_name = ''expand'', step_type = CUSTOM,
      sequence = 2, start_time_step = None, end_time_step = None, inputs = [], outputs = [],
      reasoning = [], candidates_in = Some 1, candidates_out = Some (10 ^ 309),
      candidates_data = None, filters_applied = [], metadata_step = []\<rparr>
       = Inl (Exception ''OverflowError'' ''integer division result too large for a float'')"
proof (intro conjI)
  let ?s = "\<lparr>id_step = 7, run_id = None, step_name = ''filter'', step_type = FILTER,
      sequence = 1, start_time_step = None, end_time_step = None, inputs = [], outputs = [],
      reasoning = [], candidates_in = Some 500, candidates_out = Some 40,
      candidates_data = None, filters_applied = [], metadata_step = []\<rparr>"
  have h: "candidates_in ?s = Some 500 \<and> (0::int) < 500 \<and> candidates_out ?s = Some 40"
    by simp
  have r: "(0::int) \<le> 40 \<and> (40::int) \<le> 500" by simp
  from reduction_rate_spec [of ?s 500 40, THEN conjunct1, THEN mp, OF h, THEN conjunct2,
      THEN conjunct2, THEN conjunct1, THEN mp, OF r]
  show "\<exists>x. reduction_rate ?s = Inr (Some x) \<and> 0 \<le> x \<and> x \<le> 1" .
next
  let ?s = "\<lparr>id_step = 8, run_id = None, step_name = ''search'', step_type = SEARCH,
      sequence = 0, start_time_step = None, end_time_step = None, inputs = [], outputs = [],
      reasoning = [], candidates_in = Some 0, candidates_out = Some 0,
      candidates_data = None, filters_applied = [], metadata_step = []\<rparr>"
  have h: "candidates_in ?s = Some 0" by simp
  from reduction_rate_spec [of ?s 1 1, THEN conjunct2, THEN mp, OF h]
  show "reduction_rate ?s = Inr None" .
next
  let ?s = "\<lparr>id_step = 9, run_id = None, step_name = ''expand'', step_type = CUSTOM,
      sequence = 2, start_time_step = None, end_time_step = None, inputs = [], outputs = [],
      reasoning = [], candidates_in = Some 1, candidates_out = Some (10 ^ 309),
      candidates_data = None, filters_applied = [], metadata_step = []\<rparr>"
  have h: "candidates_in ?s = Some 1 \<and> (0::int) < 1 \<and> candidates_out ?s = Some (10 ^ 309)"
    by simp
  have r: "2 ^ 1024 \<le> \<bar>(of_int (1 - 10 ^ 309) :: rat) / of_int 1\<bar>" by simp
  from reduction_rate_spec [of ?s 1 "10 ^ 309", THEN conjunct1, THEN mp, OF h, THEN conjunct2,
      THEN conjunct2, THEN conjunct2, THEN mp, OF r]
  show "reduction_rate ?s
    = Inl (Exception ''OverflowError'' ''integer division result too large for a float'')" .
qed

text \<open>
  With \<open>candidates_in = 3\<close> and \<open>candidates_out = 2\<close> the reduction rate is the double
  \<open>0.3333333333333333\<close>, that is \<open>6004799503160661 / 2^54\<close>, and not \<open>(3 - 2) / 3\<close>.
\<close>

theorem reduction_rate_rounds:
  "reduction_rate \<lparr>id_step = 7, run_id = None, step_name = ''filter'', step_type = FILTER,
      sequence = 1, start_time_step = None, end_time_step = None, inputs = [], outputs = [],
      reasoning = [], candidates_in = Some 3, candidates_out = Some 2,
      candidates_data = None, filters_applied = [], metadata_step = []\<rparr>
     = Inr (Some (6004799503160661 / 18014398509481984))
   \<and> (6004799503160661 / 18014398509481984 :: rat) \<noteq> (3 - 2) / 3"
  by (simp add: reduction_rate_def int_truediv_def round_double_third Let_def)

subsection \<open>Smart sampling\<close>

lemma sample_candidates_identity:
  "int (length xs) \<le> (case T of None \<Rightarrow> cm | Some m \<Rightarrow> m)
     \<Longrightarrow> sample_candidates pick seed cm xs T S = Inr xs"
  by (simp add: sample_candidates_def)

lemma random_sample_length:
  assumes "valid_choice pick" "0 \<le> k" "k \<le> int (length xs)"
  shows "\<exists>ys. random_sample pick seed xs k = Inr ys \<and> length ys = nat k \<and> set ys \<subseteq> set xs"
proof -
  have "nat k \<le> length xs" using assms by linarith
  with assms(1) have "length (pick seed (length xs) (nat k)) = nat k"
     and "\<forall>i \<in> set (pick seed (length xs) (nat k)). i < length xs"
    unfolding valid_choice_def by blast+
  then show ?thesis using assms(2,3) by (auto simp: random_sample_def)
qed

text \<open>
  Above the threshold and with a positive sample size, the sampler returns between
  \<open>min S N\<close> and \<open>3 S\<close> items, and at most \<open>N\<close> of them when \<open>N \<le> S\<close> or \<open>2 S \<le> N\<close>.
\<close>

lemma sample_candidates_size:
  assumes v: "valid_choice pick" and S: "0 < S"
    and big: "(case T of None \<Rightarrow> cm | Some m \<Rightarrow> m) < int (length xs)"
  shows "\<exists>out. sample_candidates pick seed cm xs T S = Inr out
           \<and> min S (int (length xs)) \<le> int (length out) \<and> int (length out) \<le> 3 * S
           \<and> (int (length xs) \<le> S \<or> 2 * S \<le> int (length xs) \<longrightarrow> length out \<le> length xs)"
proof -
  let ?N = "int (length xs)"
  let ?mid = "slice xs (Some S) (Some (- S))"
  have lm: "int (length ?mid) = (if 2 * S \<le> ?N then ?N - 2 * S else 0)"
    using S by (auto simp: slice_def clamp_index_def Let_def)
  have l1: "int (length (slice xs None (Some (min S ?N)))) = min S ?N"
    using S by (auto simp: slice_def clamp_index_def Let_def)
  have l2: "S < ?N \<Longrightarrow> int (length (slice xs (Some (- min S ?N)) None)) = S"
    using S by (auto simp: slice_def clamp_index_def Let_def)
  show ?thesis
  proof (cases "2 * S < ?N \<and> S < int (length ?mid)")
    case True
    then have "0 \<le> min S (int (length ?mid))" "min S (int (length ?mid)) \<le> int (length ?mid)"
      using S by auto
    from random_sample_length[OF v this, of seed] obtain ys where
      ys: "random_sample pick seed ?mid (min S (int (length ?mid))) = Inr ys"
         "length ys = nat (min S (int (length ?mid)))" by blast
    show ?thesis using True big S ys l1 l2 lm
      by (auto simp: sample_candidates_def Let_def)
  next
    case False
    then show ?thesis using big S l1 l2 lm
      by (auto simp: sample_candidates_def Let_def)
  qed
qed

text \<open>
  C3: below the threshold the sampler is the identity, but above it the output can be
  larger than the input. With three candidates, threshold 1 and sample size 2, the
  first two and the last two items are taken, four in all: the guard
  \<open>total > sample_size\<close> does not cover \<open>sample_size < total < 2 * sample_size\<close>, where
  head and tail overlap.
\<close>

theorem sample_candidates_overlap:
  "sample_candidates pick seed config_max [''a'', ''b'', ''c''] (Some 1) 2
     = Inr [''a'', ''b'', ''b'', ''c'']"
  by (simp add: sample_candidates_def slice_def clamp_index_def)

subsection \<open>Stratified sampling\<close>

lemma strata_append_keys:
  "map fst (strata_append key c strata) =
     (if map_of strata key = None then map fst strata @ [key] else map fst strata)"
  by (auto simp: strata_append_def Let_def split: prod.splits)

lemma strata_append_distinct:
  "distinct (map fst strata) \<Longrightarrow> distinct (map fst (strata_append key c strata))"
  by (simp add: strata_append_keys map_of_eq_None_iff)

lemma strata_append_members:
  assumes "(k, g) \<in> set (strata_append key c strata)"
  shows "(k \<noteq> key \<and> (k, g) \<in> set strata)
       \<or> (k = key \<and> (\<exists>g'. g = g' @ [c] \<and> ((k, g') \<in> set strata \<or> (map_of strata key = None \<and> g' = []))))"
  using assms by (auto simp: strata_append_def Let_def split: if_splits)

lemma group_strata_grouped:
  "grouped key seen strata \<Longrightarrow> grouped key (seen @ cs) (group_strata key cs strata)"
proof (induction cs arbitrary: seen strata)
  case Nil
  then show ?case by simp
next
  case (Cons c cs)
  show ?case
  proof (cases "candidate_get c key")
    case None
    have "grouped key (seen @ [c]) strata"
      using Cons.prems None by (auto simp: grouped_def)
    from Cons.IH[OF this] show ?thesis using None by simp
  next
    case (Some k)
    have "grouped key (seen @ [c]) (strata_append k c strata)"
      unfolding grouped_def
    proof (intro conjI)
      show "distinct (map fst (strata_append k c strata))"
        using Cons.prems by (simp add: grouped_def strata_append_distinct)
      have mem: "g = filter (\<lambda>c. candidate_get c key = Some k') (seen @ [c]) \<and> g \<noteq> []"
        if m: "(k', g) \<in> set (strata_append k c strata)" for k' g
      proof -
        consider (other) "k' \<noteq> k" "(k', g) \<in> set strata"
          | (old) g' where "k' = k" "g = g' @ [c]" "(k', g') \<in> set strata"
          | (new) "k' = k" "g = [c]" "map_of strata k = None"
          using strata_append_members[OF m] by auto
        then show ?thesis
        proof cases
          case other
          then show ?thesis using Cons.prems Some by (auto simp: grouped_def)
        next
          case old
          then show ?thesis using Cons.prems Some by (auto simp: grouped_def)
        next
          case new
          then have "k \<notin> set (map fst strata)" by (simp add: map_of_eq_None_iff)
          then have "\<forall>c\<in>set seen. candidate_get c key \<noteq> Some k"
            using Cons.prems by (auto simp: grouped_def)
          then have "filter (\<lambda>c. candidate_get c key = Some k) seen = []"
            by (auto simp: filter_empty_conv)
          then show ?thesis using new Some by simp
        qed
      qed
      then show "\<forall>(k', g)\<in>set (strata_append k c strata).
            g = filter (\<lambda>c. candidate_get c key = Some k') (seen @ [c]) \<and> g \<noteq> []"
        by blast
      show "set (map fst (strata_append k c strata)) =
            {k'. \<exists>c\<in>set (seen @ [c]). candidate_get c key = Some k'}"
        using Cons.prems Some
        by (auto simp: grouped_def strata_append_keys map_of_eq_None_iff)
    qed
    from Cons.IH[OF this] show ?thesis using Some by simp
  qed
qed

lemma grouped_empty: "grouped key [] []"
  by (simp add: grouped_def)

lemma sample_strata_kept:
  assumes "valid_choice pick" "0 \<le> K"
  shows "\<exists>sels. sample_strata pick seed gs K acc = Inr (acc @ concat sels) \<and> list_all2 (kept K) gs sels"
proof (induction gs arbitrary: seed acc)
  case Nil
  then show ?case by simp
next
  case (Cons g gs)
  show ?case
  proof (cases "int (length g) \<le> K")
    case True
    from Cons.IH[of seed "acc @ g"] obtain sels where
      "sample_strata pick seed gs K (acc @ g) = Inr ((acc @ g) @ concat sels)" "list_all2 (kept K) gs sels"
      by blast
    then have "sample_strata pick seed (g # gs) K acc = Inr (acc @ concat (g # sels))
        \<and> list_all2 (kept K) (g # gs) (g # sels)"
      using True by (auto simp: kept_def)
    then show ?thesis by blast
  next
    case False
    then have "K \<le> int (length g)" by simp
    from random_sample_length[OF assms(1) assms(2) this, of seed] obtain ys where
      ys: "random_sample pick seed g K = Inr ys" "length ys = nat K" "set ys \<subseteq> set g" by blast
    from Cons.IH[of "Suc seed" "acc @ ys"] obtain sels where
      "sample_strata pick (Suc seed) gs K (acc @ ys) = Inr ((acc @ ys) @ concat sels)"
      "list_all2 (kept K) gs sels"
      by blast
    then have "sample_strata pick seed (g # gs) K acc = Inr (acc @ concat (ys # sels))
        \<and> list_all2 (kept K) (g # gs) (ys # sels)"
      using False ys assms(2) by (auto simp: kept_def)
    then show ?thesis by blast
  qed
qed

lemma kept_total:
  "list_all2 (kept K) gs sels \<Longrightarrow>
     length (concat sels) = sum_list (map (\<lambda>g. min (length g) (nat K)) gs)"
  by (induction rule: list_all2_induct) (auto simp: kept_def)

text \<open>What is taken from strata with distinct keys, seen through one key.\<close>

lemma kept_per_key:
  assumes "list_all2 (kept K) (map snd strata) sels"
    and "distinct (map fst strata)"
    and "\<forall>(k', g) \<in> set strata. \<forall>c \<in> set g. f c = Some k'"
  shows "\<exists>sel. filter (\<lambda>c. f c = Some k) (concat sels) = sel
           \<and> (case map_of strata k of None \<Rightarrow> sel = [] | Some g \<Rightarrow> kept K g sel)"
  using assms
proof (induction strata arbitrary: sels)
  case Nil
  then show ?case by simp
next
  case (Cons p strata)
  obtain k' g where p: "p = (k', g)" by (cases p)
  from Cons.prems(1) obtain sel rest where
    sels: "sels = sel # rest" and h: "kept K g sel" and t: "list_all2 (kept K) (map snd strata) rest"
    using p by (auto simp: list_all2_Cons1)
  have gk: "\<forall>c \<in> set sel. f c = Some k'"
    using h Cons.prems(3) p by (auto simp: kept_def)
  from Cons.IH[OF t] Cons.prems(2,3)
  have ih: "case map_of strata k of None \<Rightarrow> filter (\<lambda>c. f c = Some k) (concat rest) = []
              | Some g \<Rightarrow> kept K g (filter (\<lambda>c. f c = Some k) (concat rest))"
    by auto
  show ?case
  proof (cases "k = k'")
    case True
    then have "map_of strata k = None"
      using Cons.prems(2) p by (simp add: map_of_eq_None_iff)
    with ih have "filter (\<lambda>c. f c = Some k) (concat rest) = []" by simp
    moreover have "filter (\<lambda>c. f c = Some k) sel = sel" using gk True by (simp add: filter_id_conv)
    ultimately show ?thesis using True p sels h by simp
  next
    case False
    then have "filter (\<lambda>c. f c = Some k) sel = []" using gk by (auto simp: filter_empty_conv)
    then show ?thesis using False p sels ih by simp
  qed
qed

lemma kept_subset:
  "list_all2 (kept K) gs sels \<Longrightarrow> set (concat sels) \<subseteq> set (concat gs)"
  by (induction rule: list_all2_induct) (auto simp: kept_def)

lemma set_strata_keys:
  "set (strata_keys key cs) = {k. \<exists>c \<in> set cs. candidate_get c key = Some k}"
  by (induction cs) (auto simp: strata_keys_def split: option.splits)

lemma grouped_total:
  assumes "grouped key cs strata"
  shows "sum_list (map (\<lambda>g. min (length g) n) (map snd strata))
           = sum_list (map (\<lambda>k. min (length (stratum key k cs)) n) (strata_keys key cs))"
proof -
  let ?f = "\<lambda>k. min (length (stratum key k cs)) n"
  have "\<forall>(k, g) \<in> set strata. g = stratum key k cs"
    using assms by (simp add: grouped_def stratum_def split_def)
  then have "map (\<lambda>g. min (length g) n) (map snd strata) = map ?f (map fst strata)"
    by auto
  also have "sum_list (map ?f (map fst strata)) = sum ?f (set (map fst strata))"
    using assms by (intro sum_list_distinct_conv_sum_set) (simp add: grouped_def)
  also have "set (map fst strata) = set (strata_keys key cs)"
    using assms unfolding set_strata_keys by (simp add: grouped_def)
  also have "sum ?f (set (strata_keys key cs)) = sum_list (map ?f (strata_keys key cs))"
    by (intro sum_list_distinct_conv_sum_set[symmetric]) (simp add: strata_keys_def)
  finally show ?thesis .
qed

lemma grouped_members:
  "grouped key cs strata \<Longrightarrow> (k, g) \<in> set strata \<Longrightarrow> g = stratum key k cs"
  by (simp add: grouped_def stratum_def split_def Ball_def)

lemma grouped_keys:
  "grouped key cs strata \<Longrightarrow>
     set (map fst strata) = {k. \<exists>c \<in> set cs. candidate_get c key = Some k}"
  by (simp add: grouped_def)

lemma grouped_distinct: "grouped key cs strata \<Longrightarrow> distinct (map fst strata)"
  by (simp add: grouped_def)

lemma stratum_member: "c \<in> set (stratum key k cs) \<Longrightarrow> candidate_get c key = Some k"
  by (simp add: stratum_def)

lemma stratified_kept:
  assumes "valid_choice pick" and "0 \<le> K"
  shows "\<exists>out. sample_candidates_stratified pick seed candidates strata_key K = Inr out
    \<and> (\<forall>key. kept K (stratum strata_key key candidates) (stratum strata_key key out))
    \<and> length out = sum_list (map (\<lambda>key. min (length (stratum strata_key key candidates)) (nat K))
                                 (strata_keys strata_key candidates))
    \<and> (\<forall>c \<in> set out. candidate_get c strata_key \<noteq> None)"
proof -
  let ?R = "group_strata strata_key candidates []"
  have g: "grouped strata_key candidates ?R"
    using group_strata_grouped[OF grouped_empty, of strata_key candidates] by simp
  from sample_strata_kept[OF assms, of seed "map snd ?R" "[]"] obtain sels where
    out: "sample_strata pick seed (map snd ?R) K [] = Inr (concat sels)"
    and k: "list_all2 (kept K) (map snd ?R) sels" by auto
  have d: "distinct (map fst ?R)" by (rule grouped_distinct[OF g])
  have members: "\<forall>(k', g) \<in> set ?R. \<forall>c \<in> set g. candidate_get c strata_key = Some k'"
  proof (rule ballI, rule prod.case_eq_if[THEN iffD2], rule ballI)
    fix p c assume p: "p \<in> set ?R" and c: "c \<in> set (snd p)"
    from p have "snd p = stratum strata_key (fst p) candidates"
      using grouped_members[OF g, of "fst p" "snd p"] by simp
    with c show "candidate_get c strata_key = Some (fst p)"
      using stratum_member by metis
  qed
  have per: "kept K (stratum strata_key key candidates) (stratum strata_key key (concat sels))" for key
  proof (cases "map_of ?R key")
    case None
    then have "key \<notin> set (map fst ?R)" by (simp add: map_of_eq_None_iff)
    then have "\<forall>c \<in> set candidates. candidate_get c strata_key \<noteq> Some key"
      unfolding grouped_keys[OF g] by blast
    then have e: "stratum strata_key key candidates = []"
      by (simp add: stratum_def filter_empty_conv)
    from kept_per_key[OF k d members, of key] None
    have "stratum strata_key key (concat sels) = []"
      by (simp add: stratum_def)
    with e show ?thesis by (simp add: kept_def)
  next
    case (Some grp)
    then have "(key, grp) \<in> set ?R" by (rule map_of_SomeD)
    then have "grp = stratum strata_key key candidates" by (rule grouped_members[OF g])
    with kept_per_key[OF k d members, of key] Some
    show ?thesis by (simp add: stratum_def)
  qed
  have total: "length (concat sels) =
      sum_list (map (\<lambda>key. min (length (stratum strata_key key candidates)) (nat K))
                  (strata_keys strata_key candidates))"
    using kept_total[OF k] grouped_total[OF g] by simp
  have sub: "set (concat sels) \<subseteq> set (concat (map snd ?R))" by (rule kept_subset[OF k])
  have nonnull: "\<forall>c \<in> set (concat sels). candidate_get c strata_key \<noteq> None"
  proof
    fix c assume "c \<in> set (concat sels)"
    with sub have "c \<in> set (concat (map snd ?R))" by blast
    then obtain p where "p \<in> set ?R" "c \<in> set (snd p)" by auto
    with members have "candidate_get c strata_key = Some (fst p)"
      by (auto simp: split_def)
    then show "candidate_get c strata_key \<noteq> None" by simp
  qed
  have res: "sample_candidates_stratified pick seed candidates strata_key K = Inr (concat sels)"
    using out by (simp add: sample_candidates_stratified_def)
  show ?thesis
    by (rule exI[of _ "concat sels"]) (use res per total nonnull in simp)
qed


text \<open>
  C8: for a per-group cap \<open>K \<ge> 0\<close>, stratified sampling returns, for every value of the
  grouping field, \<open>min g K\<close> of the \<open>g\<close> candidates that carry it, and all of them, in
  their order, when \<open>g \<le> K\<close>; the output has as many items as the sum of \<open>min g K\<close> over
  the distinct values. The groups are those of the values other than \<open>None\<close>: a candidate
  without the field is in no group and not in the output.
\<close>

theorem stratified_sampling_group_sizes:
  assumes "valid_choice pick" and "0 \<le> K"
  shows "\<exists>out. sample_candidates_stratified pick seed candidates strata_key K = Inr out
    \<and> (\<forall>key. length (stratum strata_key key out)
                = min (length (stratum strata_key key candidates)) (nat K))
    \<and> (\<forall>key. int (length (stratum strata_key key candidates)) \<le> K
                \<longrightarrow> stratum strata_key key out = stratum strata_key key candidates)
    \<and> length out = sum_list (map (\<lambda>key. min (length (stratum strata_key key candidates)) (nat K))
                                 (strata_keys strata_key candidates))
    \<and> (\<forall>c \<in> set out. candidate_get c strata_key \<noteq> None)"
proof -
  from stratified_kept[OF assms, of seed candidates strata_key] obtain out where
    r: "sample_candidates_stratified pick seed candidates strata_key K = Inr out"
    and k: "\<forall>key. kept K (stratum strata_key key candidates) (stratum strata_key key out)"
    and t: "length out = sum_list (map (\<lambda>key. min (length (stratum strata_key key candidates)) (nat K))
                                 (strata_keys strata_key candidates))"
    and n: "\<forall>c \<in> set out. candidate_get c strata_key \<noteq> None"
    by blast
  from k have k1: "\<forall>key. length (stratum strata_key key out)
                = min (length (stratum strata_key key candidates)) (nat K)"
    by (simp add: kept_def)
  from k have k2: "\<forall>key. int (length (stratum strata_key key candidates)) \<le> K
                \<longrightarrow> stratum strata_key key out = stratum strata_key key candidates"
    by (simp add: kept_def)
  show ?thesis
    by (rule exI[of _ out]) (use r k1 k2 t n in simp)
qed

theorem stratified_sampling_group_sizes_witness:
  "\<exists>out. sample_candidates_stratified (\<lambda>seed n k. [0..<k]) 0
     [Map.empty(''category'' \<mapsto> Some ''a''), Map.empty(''category'' \<mapsto> Some ''a''),
      Map.empty(''category'' \<mapsto> Some ''b''), Map.empty(''id'' \<mapsto> Some ''x''),
      Map.empty(''category'' \<mapsto> Some ''a'')] ''category'' 2 = Inr out \<and> length out = 3"
proof -
  have v: "valid_choice (\<lambda>seed n k. [0..<k])" by (simp add: valid_choice_def)
  have k: "(0::int) \<le> 2" by simp
  let ?cs = "[Map.empty(''category'' \<mapsto> Some ''a''), Map.empty(''category'' \<mapsto> Some ''a''),
      Map.empty(''category'' \<mapsto> Some ''b''), Map.empty(''id'' \<mapsto> Some ''x''),
      Map.empty(''category'' \<mapsto> Some ''a'')] :: string candidate list"
  have keys: "strata_keys ''category'' ?cs = [''b'', ''a'']"
    by (simp add: strata_keys_def candidate_get_def)
  have a: "length (stratum ''category'' ''a'' ?cs) = 3"
    by (simp add: stratum_def candidate_get_def)
  have b: "length (stratum ''category'' ''b'' ?cs) = 1"
    by (simp add: stratum_def candidate_get_def)
  from stratified_sampling_group_sizes[OF v k, of 0 ?cs "''category''"] obtain out where
    "sample_candidates_stratified (\<lambda>seed n k. [0..<k]) 0 ?cs ''category'' 2 = Inr out"
    "length out = sum_list (map (\<lambda>key. min (length (stratum ''category'' key ?cs)) (nat 2))
                                 (strata_keys ''category'' ?cs))"
    by blast
  then show ?thesis unfolding keys using a b by simp
qed

subsection \<open>Configuration\<close>











subsection \<open>Delivery\<close>

lemma handle_failure_frame:
  "handle_failure config payload exc rt w = (res, w') \<Longrightarrow>
     run_contexts w' = run_contexts w \<and> step_contexts w' = step_contexts w
     \<and> current_run_context w' = current_run_context w
     \<and> current_step_context w' = current_step_context w
     \<and> config_global w' = config_global w \<and> http_posts w' = http_posts w"
  by (auto simp: handle_failure_def write_to_log_def Let_def split: if_splits option.splits)

lemma handle_failure_result:
  "fst (handle_failure config payload exc rt w) =
     (if fallback_mode config = FallbackMode_value RAISE
      then Inl (case exc of Some e \<Rightarrow> e
                | None \<Rightarrow> Exception ''RuntimeError''
                            (''Failed to send trace to X-Ray API at ''
                               @ (case api_url config of PStr url \<Rightarrow> url | _ \<Rightarrow> [])))
      else Inr (fallback_mode config = FallbackMode_value LOG \<and> write_ok rt))"
  by (auto simp: handle_failure_def write_to_log_def Let_def split: option.splits)

lemma send_result:
  "fst (send config payload rt w) =
     (case raised_by_send config rt of
        Some e \<Rightarrow> Inl e
      | None \<Rightarrow> Inr (\<not> truthy (enabled config)
                     \<or> http_post rt = Response 200 \<or> http_post rt = Response 201
                     \<or> (fallback_mode config = FallbackMode_value LOG \<and> write_ok rt)))"
proof (cases "truthy (enabled config)")
  case False
  then show ?thesis by (simp add: send_def raised_by_send_def)
next
  case True
  show ?thesis
  proof (cases "http_post rt")
    case (Response code)
    show ?thesis
    proof (cases "code = 200 \<or> code = 201")
      case ok: True
      then show ?thesis using True Response by (auto simp: send_def raised_by_send_def Let_def)
    next
      case bad: False
      obtain res w' where h: "handle_failure config payload None rt (w\<lparr>http_posts := http_posts w @ [payload]\<rparr>) = (res, w')"
        by (cases "handle_failure config payload None rt (w\<lparr>http_posts := http_posts w @ [payload]\<rparr>)")
      have r: "res = fst (handle_failure config payload None rt (w\<lparr>http_posts := http_posts w @ [payload]\<rparr>))"
        using h by simp
      show ?thesis
        using True Response bad h r[unfolded handle_failure_result]
          handle_failure_result[of config payload "Some e" rt w' for e]
        by (auto simp: send_def raised_by_send_def Let_def split: sum.splits if_splits)
    qed
  next
    case (TimeoutException e)
    then show ?thesis using True handle_failure_result[of config payload "Some e" rt]
      by (auto simp: send_def raised_by_send_def Let_def)
  next
    case (ConnectError e)
    then show ?thesis using True handle_failure_result[of config payload "Some e" rt]
      by (auto simp: send_def raised_by_send_def Let_def)
  next
    case (OtherException e)
    then show ?thesis using True handle_failure_result[of config payload "Some e" rt]
      by (auto simp: send_def raised_by_send_def Let_def)
  qed
qed

lemma send_frame:
  "send config payload rt w = (res, w') \<Longrightarrow>
     run_contexts w' = run_contexts w \<and> step_contexts w' = step_contexts w
     \<and> current_run_context w' = current_run_context w
     \<and> current_step_context w' = current_step_context w
     \<and> config_global w' = config_global w"
  by (auto simp: send_def Let_def split: if_splits post_outcome.splits sum.splits prod.splits
           dest!: handle_failure_frame)

lemma send_trace_frame:
  "send_trace payload rt w = (res, w') \<Longrightarrow>
     run_contexts w' = run_contexts w \<and> step_contexts w' = step_contexts w
     \<and> current_run_context w' = current_run_context w
     \<and> current_step_context w' = current_step_context w"
  by (auto simp: send_trace_def send_async_def get_config_def Let_def
           split: if_splits option.splits dest!: send_frame)

lemma send_trace_result:
  "fst (send_trace payload rt w) = Inl e \<longleftrightarrow> raised_by_delivery True rt w = Some e"
  by (auto simp: send_trace_def send_async_def get_config_def raised_by_delivery_def Let_def
                 send_result
           split: option.splits)

lemma validate_steps_sorted:
  "validate_steps xs = (if sorted (map sequence xs) then Inr xs
     else Inl (Exception ''ValidationError'' ''Steps must be in sequential order by sequence number''))"
  by (auto simp: validate_steps_def Let_def sorted_sort_id) (metis sorted_sort)

text \<open>
  C9: with tracing disabled, \<open>send\<close> returns \<open>True\<close> and leaves the world as it was: no
  request is posted, no file written, no thread started.
\<close>

theorem send_disabled:
  assumes "\<not> truthy (enabled config)"
  shows "send config payload rt w = (Inr True, w)
       \<and> http_posts (snd (send config payload rt w)) = http_posts w"
  using assms by (simp add: send_def)


theorem send_disabled_witness:
  "send ((test_config RAISE)\<lparr>enabled := PBool False\<rparr>)
     \<lparr>run = \<lparr>id_run = 0, pipeline_name = ''test_pipeline'', pipeline_version = ''1.0.0'',
              start_time_run = 0, end_time_run = Some 1, status = SUCCESS,
              metadata_run = [], final_output = None\<rparr>,
      steps_payload = []\<rparr>
     (unreachable 2) (new_world None)
   = (Inr True, new_world None)"
  using send_disabled [of "(test_config RAISE)\<lparr>enabled := PBool False\<rparr>"
     "\<lparr>run = \<lparr>id_run = 0, pipeline_name = ''test_pipeline'', pipeline_version = ''1.0.0'',
              start_time_run = 0, end_time_run = Some 1, status = SUCCESS,
              metadata_run = [], final_output = None\<rparr>,
      steps_payload = []\<rparr>" "unreachable 2" "new_world None"]
  by (simp add: test_config_def)

subsection \<open>Run scopes\<close>

lemma RunContext_exit_status:
  "status (run_model (run_contexts (snd (RunContext_exit r exc rt w)) r))
     = (if exc = None then SUCCESS else FAILURE)"
proof -
  let ?st = "if exc = None then SUCCESS else FAILURE"
  let ?rc = "(run_contexts w r)\<lparr>run_model := mark_complete (run_model (run_contexts w r)) ?st None (clock rt)\<rparr>"
  let ?w = "w\<lparr>run_contexts := (run_contexts w)(r := ?rc)\<rparr>"
  have m: "status (run_model (run_contexts ?w r)) = ?st"
    by (simp add: mark_complete_def)
  show ?thesis
  proof (cases "auto_send (run_contexts w r)")
    case False
    then show ?thesis using m by (simp add: RunContext_exit_def Let_def)
  next
    case True
    show ?thesis
    proof (cases "IngestPayload_init (run_model ?rc) (map (\<lambda>s. step_model (step_contexts ?w s)) (steps ?rc))")
      case (Inl e)
      then show ?thesis using True m by (simp add: RunContext_exit_def Let_def)
    next
      case (Inr payload)
      obtain res w' where s: "send_trace payload rt ?w = (res, w')"
        by (cases "send_trace payload rt ?w")
      from send_trace_frame[OF s] have "run_contexts w' = run_contexts ?w" by simp
      then show ?thesis using True Inr s m
        by (cases res) (simp_all add: RunContext_exit_def Let_def)
    qed
  qed
qed

text \<open>What the exit of a run scope returns or raises, and what it does to the current run.\<close>

lemma RunContext_exit_result:
  "fst (RunContext_exit r exc rt w) =
     (if auto_send (run_contexts w r) \<and> \<not> sorted (attached_sequences r w)
      then Inl (Exception ''ValidationError'' ''Steps must be in sequential order by sequence number'')
      else case raised_by_delivery (auto_send (run_contexts w r)) rt w of
             Some e \<Rightarrow> Inl e
           | None \<Rightarrow> Inr False)"
proof -
  let ?st = "if exc = None then SUCCESS else FAILURE"
  let ?rc = "(run_contexts w r)\<lparr>run_model := mark_complete (run_model (run_contexts w r)) ?st None (clock rt)\<rparr>"
  let ?w = "w\<lparr>run_contexts := (run_contexts w)(r := ?rc)\<rparr>"
  let ?ms = "map (\<lambda>s. step_model (step_contexts ?w s)) (steps ?rc)"
  have seqs: "map sequence ?ms = attached_sequences r w"
    by (simp add: attached_sequences_def comp_def)
  have rd: "raised_by_delivery True rt ?w = raised_by_delivery True rt w"
    by (simp add: raised_by_delivery_def)
  show ?thesis
  proof (cases "auto_send (run_contexts w r)")
    case False
    then show ?thesis by (simp add: RunContext_exit_def Let_def raised_by_delivery_def)
  next
    case True
    show ?thesis
    proof (cases "sorted (attached_sequences r w)")
      case False
      then have "IngestPayload_init (run_model ?rc) ?ms =
          Inl (Exception ''ValidationError'' ''Steps must be in sequential order by sequence number'')"
        using seqs by (simp add: IngestPayload_init_def validate_steps_sorted)
      then show ?thesis using True False by (simp add: RunContext_exit_def Let_def)
    next
      case sorted: True
      then have p: "IngestPayload_init (run_model ?rc) ?ms = Inr \<lparr>run = run_model ?rc, steps_payload = ?ms\<rparr>"
        using seqs by (simp add: IngestPayload_init_def validate_steps_sorted)
      let ?p = "\<lparr>run = run_model ?rc, steps_payload = ?ms\<rparr>"
      obtain res w' where s: "send_trace ?p rt ?w = (res, w')"
        by (cases "send_trace ?p rt ?w")
      have res: "res = Inl e \<longleftrightarrow> raised_by_delivery True rt w = Some e" for e
        using send_trace_result[of ?p rt ?w e] s rd by simp
      show ?thesis
      proof (cases res)
        case (Inl e)
        with res[of e] have "raised_by_delivery True rt w = Some e" by blast
        then show ?thesis using True sorted p s Inl by (simp add: RunContext_exit_def Let_def)
      next
        case (Inr b)
        have "raised_by_delivery True rt w = None"
        proof (cases "raised_by_delivery True rt w")
          case (Some e)
          with res[of e] have "res = Inl e" by blast
          with Inr show ?thesis by simp
        qed simp
        then show ?thesis using True sorted p s Inr by (simp add: RunContext_exit_def Let_def)
      qed
    qed
  qed
qed

lemma RunContext_exit_current:
  assumes "RunContext_exit r exc rt w = (res, w')"
  shows "current_run_context w' =
           (case res of Inl e \<Rightarrow> current_run_context w
            | Inr b \<Rightarrow> previous_run_context (run_contexts w r))"
proof -
  let ?st = "if exc = None then SUCCESS else FAILURE"
  let ?rc = "(run_contexts w r)\<lparr>run_model := mark_complete (run_model (run_contexts w r)) ?st None (clock rt)\<rparr>"
  let ?w = "w\<lparr>run_contexts := (run_contexts w)(r := ?rc)\<rparr>"
  let ?ms = "map (\<lambda>s. step_model (step_contexts ?w s)) (steps ?rc)"
  show ?thesis
  proof (cases "auto_send (run_contexts w r)")
    case False
    then show ?thesis using assms by (auto simp: RunContext_exit_def Let_def)
  next
    case True
    show ?thesis
    proof (cases "IngestPayload_init (run_model ?rc) ?ms")
      case (Inl e)
      then show ?thesis using True assms by (auto simp: RunContext_exit_def Let_def)
    next
      case (Inr payload)
      obtain sres w1 where s: "send_trace payload rt ?w = (sres, w1)"
        by (cases "send_trace payload rt ?w")
      from send_trace_frame[OF s] have f: "run_contexts w1 = run_contexts ?w"
        "current_run_context w1 = current_run_context ?w" by simp_all
      show ?thesis using True Inr s f assms
        by (cases sres) (auto simp: RunContext_exit_def Let_def)
    qed
  qed
qed

lemma with_stmt_raise:
  "body (enter w) = (Inl e, w1) \<Longrightarrow>
     fst (with_stmt enter exit body w) =
       (case fst (exit (Some e) w1) of
          Inl e' \<Rightarrow> Inl e'
        | Inr suppress \<Rightarrow> if suppress then Inr () else Inl e)"
  by (cases "exit (Some e) w1") (auto simp: with_stmt_def split: sum.splits)

text \<open>
  C1, as the code has it: the exception that leaves a run scope is the application's,
  unless the delivery at scope exit raises, and then it is the delivery's. The delivery
  raises only when it is synchronous, tracing is enabled, the fallback mode is raise and
  the request fails; in silent and log mode, in async mode, with tracing or \<open>auto_send\<close>
  off, and when the request succeeds, the application's exception propagates. (The
  attached steps are taken to be in sequence order.)
\<close>

theorem run_exit_propagation:
  assumes "body (RunContext_enter r w) = (Inl e, w1)"
    and "auto_send (run_contexts w1 r) \<longrightarrow> sorted (attached_sequences r w1)"
  shows "fst (with_stmt (RunContext_enter r) (\<lambda>exc. RunContext_exit r exc rt) body w)
           = Inl (case raised_by_delivery (auto_send (run_contexts w1 r)) rt w1 of
                    None \<Rightarrow> e
                  | Some e' \<Rightarrow> e')"
proof -
  let ?d = "raised_by_delivery (auto_send (run_contexts w1 r)) rt w1"
  have x: "fst (RunContext_exit r (Some e) rt w1)
             = (case ?d of Some e' \<Rightarrow> Inl e' | None \<Rightarrow> Inr False)"
  proof (cases "auto_send (run_contexts w1 r)")
    case True
    with assms(2) have "sorted (attached_sequences r w1)" by simp
    then show ?thesis using True by (simp add: RunContext_exit_result)
  next
    case False
    then show ?thesis by (simp add: RunContext_exit_result)
  qed
  show ?thesis
    unfolding with_stmt_raise[where body = body and enter = "RunContext_enter r", OF assms(1)] x
    by (cases ?d) simp_all
qed

theorem run_exit_propagation_witness:
  "fst (with_stmt (RunContext_enter 0) (\<lambda>exc. RunContext_exit 0 exc (unreachable 20))
          (\<lambda>w. (Inl (Exception ''ValueError'' ''boom''), w))
          (snd (RunContext_init ''pipeline'' ''1.0.0'' None True (unreachable 10)
                  (new_world (Some (test_config LOG))))))
     = Inl (Exception ''ValueError'' ''boom'')"
proof -
  let ?w = "snd (RunContext_init ''pipeline'' ''1.0.0'' None True (unreachable 10)
                  (new_world (Some (test_config LOG))))"
  have a: "auto_send (run_contexts (RunContext_enter 0 ?w) 0)"
    by (simp add: RunContext_enter_def RunContext_init_def new_world_def Let_def)
  have s: "attached_sequences 0 (RunContext_enter 0 ?w) = []"
    by (simp add: attached_sequences_def RunContext_enter_def RunContext_init_def new_world_def Let_def)
  have c: "config_global (RunContext_enter 0 ?w) = Some (test_config LOG)"
    by (simp add: RunContext_enter_def RunContext_init_def new_world_def Let_def)
  have d: "raised_by_delivery True (unreachable 20) (RunContext_enter 0 ?w) = None"
    unfolding raised_by_delivery_def get_config_def c
    by (simp add: raised_by_send_def test_config_def unreachable_def)
  show ?thesis
    using run_exit_propagation [of "\<lambda>w. (Inl (Exception ''ValueError'' ''boom''), w)" 0 ?w
        "Exception ''ValueError'' ''boom''" "RunContext_enter 0 ?w" "unreachable 20"]
    by (simp add: a s d)
qed

text \<open>
  In raise mode, with synchronous delivery and an API that cannot be reached, the
  exception that leaves the run scope is the transport's, not the \<open>ValueError\<close> that the
  body raised.
\<close>

theorem run_exit_replaces_exception:
  "fst (with_run ''pipeline'' ''1.0.0'' None True (unreachable 10) (unreachable 20)
          (\<lambda>r w. (Inl (Exception ''ValueError'' ''boom''), w))
          (new_world (Some (test_config RAISE))))
     = Inl (Exception ''ConnectError'' ''connection refused'')"
proof -
  let ?w = "snd (RunContext_init ''pipeline'' ''1.0.0'' None True (unreachable 10)
                  (new_world (Some (test_config RAISE))))"
  have i: "fst (RunContext_init ''pipeline'' ''1.0.0'' None True (unreachable 10)
                  (new_world (Some (test_config RAISE)))) = 0"
    by (simp add: RunContext_init_def new_world_def Let_def)
  have a: "auto_send (run_contexts (RunContext_enter 0 ?w) 0)"
    by (simp add: RunContext_enter_def RunContext_init_def new_world_def Let_def)
  have s: "attached_sequences 0 (RunContext_enter 0 ?w) = []"
    by (simp add: attached_sequences_def RunContext_enter_def RunContext_init_def new_world_def Let_def)
  have c: "config_global (RunContext_enter 0 ?w) = Some (test_config RAISE)"
    by (simp add: RunContext_enter_def RunContext_init_def new_world_def Let_def)
  have d: "raised_by_delivery True (unreachable 20) (RunContext_enter 0 ?w)
             = Some (Exception ''ConnectError'' ''connection refused'')"
    unfolding raised_by_delivery_def get_config_def c
    by (simp add: raised_by_send_def test_config_def unreachable_def)
  have "fst (with_stmt (RunContext_enter 0) (\<lambda>exc. RunContext_exit 0 exc (unreachable 20))
          (\<lambda>w. (Inl (Exception ''ValueError'' ''boom''), w)) ?w)
     = Inl (Exception ''ConnectError'' ''connection refused'')"
    by (simp add: with_stmt_raise[where body = "\<lambda>w. (Inl (Exception ''ValueError'' ''boom''), w)"
                    and enter = "RunContext_enter 0" and w = ?w
                    and e = "Exception ''ValueError'' ''boom''" and ?w1.0 = "RunContext_enter 0 ?w"]
                  RunContext_exit_result a s d)
  then show ?thesis using i
    by (simp add: with_run_def split_def)
qed

text \<open>
  C7, as the code has it: a run starts \<open>RUNNING\<close>; the exit of its scope sets \<open>SUCCESS\<close> or
  \<open>FAILURE\<close>, never \<open>PARTIAL\<close>; \<open>mark_complete\<close> sets whatever status it is given, whatever
  the status was; setting metadata or the final output leaves the status alone.
\<close>

theorem run_status_lifecycle:
  "status (run_model (run_contexts (snd (RunContext_init name version metadata auto rt w))
                        (fst (RunContext_init name version metadata auto rt w)))) = RUNNING
   \<and> status (run_model (run_contexts (snd (RunContext_exit r exc rt w)) r))
        = (if exc = None then SUCCESS else FAILURE)
   \<and> status (mark_complete m st out now) = st
   \<and> status (run_model (run_contexts (set_metadata r key val w) r))
        = status (run_model (run_contexts w r))
   \<and> status (run_model (run_contexts (set_final_output r output w) r))
        = status (run_model (run_contexts w r))"
  by (simp add: RunContext_exit_status)
     (simp add: RunContext_init_def mark_complete_def set_metadata_def set_final_output_def
                Let_def split: option.splits)

text \<open>A second \<open>mark_complete\<close> takes a run out of the terminal status \<open>SUCCESS\<close>.\<close>

theorem mark_complete_overwrites_terminal:
  "status (mark_complete
             \<lparr>id_run = 0, pipeline_name = ''pipeline'', pipeline_version = ''1.0.0'',
              start_time_run = 0, end_time_run = None, status = RUNNING,
              metadata_run = [], final_output = None\<rparr> SUCCESS None 1) = SUCCESS
   \<and> status (mark_complete
               (mark_complete
                  \<lparr>id_run = 0, pipeline_name = ''pipeline'', pipeline_version = ''1.0.0'',
                   start_time_run = 0, end_time_run = None, status = RUNNING,
                   metadata_run = [], final_output = None\<rparr> SUCCESS None 1)
               FAILURE None 2) = FAILURE"
  by (simp add: mark_complete_def)

subsection \<open>Step scopes\<close>

lemma update_step_model_twice:
  "update_step_model s f (update_step_model s g w) = update_step_model s (\<lambda>m. f (g m)) w"
  by (simp add: update_step_model_def Let_def)

lemma update_step_model_id: "update_step_model s (\<lambda>m. m) w = w"
  by (simp add: update_step_model_def Let_def)

text \<open>The setters change the model of their step only, and not its sequence number.\<close>

lemma call_step_update:
  "\<exists>f. (\<forall>w. call_step s c w = update_step_model s f w) \<and> (\<forall>m. sequence (f m) = sequence m)"
proof (cases c)
  case (SetInputs d)
  show ?thesis unfolding SetInputs call_step.simps
    by (rule exI[of _ "\<lambda>m. m\<lparr>inputs := d\<rparr>"]) simp
next
  case (SetOutputs d)
  show ?thesis unfolding SetOutputs call_step.simps
    by (rule exI[of _ "\<lambda>m. m\<lparr>outputs := d\<rparr>"]) simp
next
  case (SetReasoning d)
  show ?thesis unfolding SetReasoning call_step.simps
    by (rule exI[of _ "\<lambda>m. m\<lparr>reasoning := d\<rparr>"]) simp
next
  case (SetCandidates i out)
  show ?thesis unfolding SetCandidates call_step.simps
    by (rule exI[of _ "\<lambda>m. m\<lparr>candidates_in := Some i, candidates_out := Some out, candidates_data := None\<rparr>"]) simp
next
  case (SetFilters d)
  show ?thesis unfolding SetFilters call_step.simps
    by (rule exI[of _ "\<lambda>m. m\<lparr>filters_applied := d\<rparr>"]) simp
next
  case (AddMetadata k v)
  show ?thesis unfolding AddMetadata call_step.simps
    by (rule exI[of _ "\<lambda>m. m\<lparr>metadata_step := AList.update k v (metadata_step m)\<rparr>"]) simp
next
  case (UpdateMetadata d)
  show ?thesis unfolding UpdateMetadata call_step.simps
    by (rule exI[of _ "\<lambda>m. m\<lparr>metadata_step := foldl (\<lambda>md (key, val). AList.update key val md) (metadata_step m) d\<rparr>"]) simp
qed

lemma call_steps_update:
  "\<exists>f. (\<forall>w. foldl (\<lambda>w c. call_step s c w) w calls = update_step_model s f w)
       \<and> (\<forall>m. sequence (f m) = sequence m)"
proof (induction calls rule: rev_induct)
  case Nil
  show ?case by (rule exI[of _ "\<lambda>m. m"]) (simp add: update_step_model_id)
next
  case (snoc c calls)
  then obtain f where f: "\<forall>w. foldl (\<lambda>w c. call_step s c w) w calls = update_step_model s f w"
    "\<forall>m. sequence (f m) = sequence m" by blast
  from call_step_update[of s c] obtain g where g: "\<forall>w. call_step s c w = update_step_model s g w"
    "\<forall>m. sequence (g m) = sequence m" by blast
  show ?case
    by (rule exI[of _ "\<lambda>m. g (f m)"]) (simp add: f g update_step_model_twice)
qed

lemma update_exception_lookup:
  "map_of (AList.update ''exception'' v md) ''exception'' = Some v"
  by (simp add: update_conv')

text \<open>What one step scope, entered and left, does to the world.\<close>

lemma with_step_effect:
  fixes w :: world
  defines "s \<equiv> next_step w"
  assumes run: "with_step r name type rt1 rt2 (step_body calls raised) w = (res, w')"
  shows "res = (case raised of None \<Rightarrow> Inr () | Some e \<Rightarrow> Inl e)"
    and "run_contexts w' = (run_contexts w)(r := (run_contexts w r)
            \<lparr>steps := steps (run_contexts w r) @ [s],
             sequence_counter := sequence_counter (run_contexts w r) + 1\<rparr>)"
    and "sequence (step_model (step_contexts w' s)) = sequence_counter (run_contexts w r)"
    and "\<forall>s'. s' \<noteq> s \<longrightarrow> step_contexts w' s' = step_contexts w s'"
    and "next_step w' = Suc s" and "next_run w' = next_run w"
    and "current_run_context w' = current_run_context w"
    and "current_step_context w' = current_step_context w"
    and "config_global w' = config_global w"
    and "\<forall>e. raised = Some e \<longrightarrow>
           map_of (metadata_step (step_model (step_contexts w' s))) ''exception''
             = Some (PDict [(''type'', PStr (type_name e)), (''message'', PStr (message e))])"
proof -
  from call_steps_update[of s calls] obtain f where
    f: "\<And>w. foldl (\<lambda>w c. call_step s c w) w calls = update_step_model s f w"
    and fs: "\<And>m. sequence (f m) = sequence m" by blast
  note defs = with_step_def with_stmt_def step_body_def RunContext_step_def
    StepContext_enter_def StepContext_exit_def add_step_def update_step_model_def Let_def f
    s_def[symmetric]
  from run show "res = (case raised of None \<Rightarrow> Inr () | Some e \<Rightarrow> Inl e)"
    unfolding s_def by (cases raised) (auto simp: defs)
  from run show "run_contexts w' = (run_contexts w)(r := (run_contexts w r)
            \<lparr>steps := steps (run_contexts w r) @ [s],
             sequence_counter := sequence_counter (run_contexts w r) + 1\<rparr>)"
    unfolding s_def by (cases raised) (auto simp: defs)
  from run show "sequence (step_model (step_contexts w' s)) = sequence_counter (run_contexts w r)"
    unfolding s_def by (cases raised) (auto simp: defs fs)
  from run show "\<forall>s'. s' \<noteq> s \<longrightarrow> step_contexts w' s' = step_contexts w s'"
    unfolding s_def by (cases raised) (auto simp: defs)
  from run show "next_step w' = Suc s"
    unfolding s_def by (cases raised) (auto simp: defs)
  from run show "next_run w' = next_run w"
    unfolding s_def by (cases raised) (auto simp: defs)
  from run show "current_run_context w' = current_run_context w"
    unfolding s_def by (cases raised) (auto simp: defs)
  from run show "current_step_context w' = current_step_context w"
    unfolding s_def by (cases raised) (auto simp: defs)
  from run show "config_global w' = config_global w"
    unfolding s_def by (cases raised) (auto simp: defs)
  from run show "\<forall>e. raised = Some e \<longrightarrow>
           map_of (metadata_step (step_model (step_contexts w' s))) ''exception''
             = Some (PDict [(''type'', PStr (type_name e)), (''message'', PStr (message e))])"
    unfolding s_def by (cases raised) (auto simp: defs update_exception_lookup)
qed

lemma with_stmt_raise_world:
  "body (enter w) = (Inl e, w1) \<Longrightarrow> snd (with_stmt enter exit body w) = snd (exit (Some e) w1)"
  by (cases "exit (Some e) w1") (auto simp: with_stmt_def split: sum.splits)

lemma RunContext_exit_steps:
  "step_contexts (snd (RunContext_exit r exc rt w)) = step_contexts w"
proof -
  let ?st = "if exc = None then SUCCESS else FAILURE"
  let ?rc = "(run_contexts w r)\<lparr>run_model := mark_complete (run_model (run_contexts w r)) ?st None (clock rt)\<rparr>"
  let ?w = "w\<lparr>run_contexts := (run_contexts w)(r := ?rc)\<rparr>"
  show ?thesis
  proof (cases "auto_send (run_contexts w r)")
    case False
    then show ?thesis by (simp add: RunContext_exit_def Let_def)
  next
    case True
    show ?thesis
    proof (cases "IngestPayload_init (run_model ?rc) (map (\<lambda>s. step_model (step_contexts ?w s)) (steps ?rc))")
      case (Inl e)
      then show ?thesis using True by (simp add: RunContext_exit_def Let_def)
    next
      case (Inr payload)
      obtain res w' where s: "send_trace payload rt ?w = (res, w')"
        by (cases "send_trace payload rt ?w")
      from send_trace_frame[OF s] have "step_contexts w' = step_contexts ?w" by simp
      then show ?thesis using True Inr s
        by (cases res) (simp_all add: RunContext_exit_def Let_def)
    qed
  qed
qed

text \<open>A step that raises, inside a run: what reaches the caller and what is recorded.\<close>

lemma failing_step_effect:
  "fst (with_run pname version metadata auto rt0 rt3
          (\<lambda>r. with_step r sname type rt1 rt2 (step_body calls (Some e))) w)
     = Inl (case raised_by_delivery auto rt3 w of None \<Rightarrow> e | Some e' \<Rightarrow> e')
   \<and> map_of (metadata_step (step_model (step_contexts
         (snd (with_run pname version metadata auto rt0 rt3
                 (\<lambda>r. with_step r sname type rt1 rt2 (step_body calls (Some e))) w))
         (next_step w)))) ''exception''
       = Some (PDict [(''type'', PStr (type_name e)), (''message'', PStr (message e))])
   \<and> status (run_model (run_contexts
         (snd (with_run pname version metadata auto rt0 rt3
                 (\<lambda>r. with_step r sname type rt1 rt2 (step_body calls (Some e))) w))
         (next_run w))) = FAILURE"
proof -
  let ?r = "next_run w"
  let ?w1 = "snd (RunContext_init pname version metadata auto rt0 w)"
  let ?w2 = "RunContext_enter ?r ?w1"
  let ?body = "with_step ?r sname type rt1 rt2 (step_body calls (Some e))"
  have init: "fst (RunContext_init pname version metadata auto rt0 w) = ?r"
    by (simp add: RunContext_init_def Let_def)
  have w2: "next_step ?w2 = next_step w" "config_global ?w2 = config_global w"
    "steps (run_contexts ?w2 ?r) = []" "sequence_counter (run_contexts ?w2 ?r) = 0"
    "auto_send (run_contexts ?w2 ?r) = auto"
    by (simp_all add: RunContext_init_def RunContext_enter_def Let_def)
  obtain sres w6 where st: "?body ?w2 = (sres, w6)" by (cases "?body ?w2")
  note eff = with_step_effect[OF st]
  have sres: "sres = Inl e" using eff(1) by simp
  have b: "?body (RunContext_enter ?r ?w1) = (Inl e, w6)" using st sres by simp
  have run: "with_run pname version metadata auto rt0 rt3
          (\<lambda>r. with_step r sname type rt1 rt2 (step_body calls (Some e))) w
       = with_stmt (RunContext_enter ?r) (\<lambda>exc. RunContext_exit ?r exc rt3) ?body ?w1"
    by (simp add: with_run_def split_def init)
  have a6: "auto_send (run_contexts w6 ?r) = auto" "attached_sequences ?r w6 = [0]"
    using eff(2,3) w2(1,3,4,5) by (simp_all add: attached_sequences_def)
  have d6: "raised_by_delivery auto rt3 w6 = raised_by_delivery auto rt3 w"
    using eff(9) w2(2) by (simp add: raised_by_delivery_def)
  have 1: "fst (with_stmt (RunContext_enter ?r) (\<lambda>exc. RunContext_exit ?r exc rt3) ?body ?w1)
             = Inl (case raised_by_delivery auto rt3 w of None \<Rightarrow> e | Some e' \<Rightarrow> e')"
    unfolding with_stmt_raise[where body = ?body and enter = "RunContext_enter ?r", OF b]
      RunContext_exit_result a6 d6
    by (cases "raised_by_delivery auto rt3 w") simp_all
  have w7: "snd (with_stmt (RunContext_enter ?r) (\<lambda>exc. RunContext_exit ?r exc rt3) ?body ?w1)
              = snd (RunContext_exit ?r (Some e) rt3 w6)"
    by (rule with_stmt_raise_world[where body = ?body and enter = "RunContext_enter ?r", OF b])
  have 2: "map_of (metadata_step (step_model (step_contexts
             (snd (with_stmt (RunContext_enter ?r) (\<lambda>exc. RunContext_exit ?r exc rt3) ?body ?w1))
             (next_step w)))) ''exception''
       = Some (PDict [(''type'', PStr (type_name e)), (''message'', PStr (message e))])"
    unfolding w7 RunContext_exit_steps using eff(10) w2(1) by simp
  have 3: "status (run_model (run_contexts
             (snd (with_stmt (RunContext_enter ?r) (\<lambda>exc. RunContext_exit ?r exc rt3) ?body ?w1))
             ?r)) = FAILURE"
    unfolding w7 by (simp add: RunContext_exit_status)
  show ?thesis unfolding run by (intro conjI 1 2 3)
qed

text \<open>A step scope whose body raises, whatever the body is.\<close>

lemma raising_step_scope:
  assumes "fst (sbody (next_step w)
                  (StepContext_enter (next_step w) rtb (snd (RunContext_step r sname type w))))
             = Inl e"
  shows "fst (with_step r sname type rtb rtc sbody w) = Inl e"
    and "map_of (metadata_step (step_model (step_contexts
           (snd (with_step r sname type rtb rtc sbody w)) (next_step w)))) ''exception''
         = Some (PDict [(''type'', PStr (type_name e)), (''message'', PStr (message e))])"
proof -
  let ?s = "next_step w"
  let ?w4 = "StepContext_enter ?s rtb (snd (RunContext_step r sname type w))"
  obtain res w5 where b: "sbody ?s ?w4 = (res, w5)" by (cases "sbody ?s ?w4")
  with assms have res: "res = Inl e" by simp
  have st: "fst (RunContext_step r sname type w) = ?s"
    by (simp add: RunContext_step_def Let_def)
  have ws: "with_step r sname type rtb rtc sbody w
      = with_stmt (StepContext_enter ?s rtb) (\<lambda>exc. StepContext_exit ?s exc rtc) (sbody ?s)
          (snd (RunContext_step r sname type w))"
    by (simp add: with_step_def split_def st)
  have b': "sbody ?s (StepContext_enter ?s rtb (snd (RunContext_step r sname type w)))
      = (Inl e, w5)" using b res by simp
  have ex: "fst (StepContext_exit ?s (Some e) rtc w5) = Inr False"
    by (simp add: StepContext_exit_def Let_def)
  show "fst (with_step r sname type rtb rtc sbody w) = Inl e"
    unfolding ws with_stmt_raise[where body = "sbody ?s" and enter = "StepContext_enter ?s rtb",
        OF b'] ex by simp
  have "snd (with_step r sname type rtb rtc sbody w) = snd (StepContext_exit ?s (Some e) rtc w5)"
    unfolding ws
    by (rule with_stmt_raise_world[where body = "sbody ?s"
          and enter = "StepContext_enter ?s rtb", OF b'])
  then show "map_of (metadata_step (step_model (step_contexts
           (snd (with_step r sname type rtb rtc sbody w)) ?s))) ''exception''
         = Some (PDict [(''type'', PStr (type_name e)), (''message'', PStr (message e))])"
    by (simp add: StepContext_exit_def add_step_def update_step_model_def Let_def
          update_exception_lookup)
qed

text \<open>
  C6, as the code has it. The body of a run scope runs some statements \<open>pre\<close>, which
  return, and then a step scope of the run whose body raises \<open>e\<close>; the step scope stands
  directly in the run scope, so that nothing catches \<open>e\<close> on its way. Then the step's
  metadata has the \<open>exception\<close> entry with the type name and the message of \<open>e\<close>, and the
  run ends with status \<open>FAILURE\<close>. What reaches the caller of the run scope is \<open>e\<close>, unless
  the exit of the run scope raises, and with \<open>auto_send\<close> on it does in two cases: when
  the steps attached to the run are not in the order of their sequence numbers
  (pydantic's \<open>ValidationError\<close>, from the validator of the payload), and else when the
  delivery raises (raise mode, synchronous, enabled, request failed). The caller then
  gets that exception. The attached steps and the configuration are those of the
  world in which the step scope has been left.
\<close>

theorem step_exception_recorded:
  assumes pre: "pre (next_run v)
                  (RunContext_enter (next_run v)
                     (snd (RunContext_init pname version metadata auto rta v)))
                = (Inr (), w)"
      and raises: "fst (sbody (next_step w)
                     (StepContext_enter (next_step w) rtb
                        (snd (RunContext_step (next_run v) sname type w))))
                   = Inl e"
  shows "fst (with_run pname version metadata auto rta rtd
                (\<lambda>r. then_stmt (pre r) (with_step r sname type rtb rtc sbody)) v)
           = Inl (if auto_send (run_contexts
                       (snd (with_step (next_run v) sname type rtb rtc sbody w)) (next_run v))
                     \<and> \<not> sorted (attached_sequences (next_run v)
                                  (snd (with_step (next_run v) sname type rtb rtc sbody w)))
                  then Exception ''ValidationError''
                         ''Steps must be in sequential order by sequence number''
                  else case raised_by_delivery
                              (auto_send (run_contexts
                                 (snd (with_step (next_run v) sname type rtb rtc sbody w))
                                 (next_run v)))
                              rtd (snd (with_step (next_run v) sname type rtb rtc sbody w)) of
                         None \<Rightarrow> e
                       | Some e' \<Rightarrow> e')
       \<and> map_of (metadata_step (step_model (step_contexts
             (snd (with_run pname version metadata auto rta rtd
                     (\<lambda>r. then_stmt (pre r) (with_step r sname type rtb rtc sbody)) v))
             (next_step w)))) ''exception''
           = Some (PDict [(''type'', PStr (type_name e)), (''message'', PStr (message e))])
       \<and> status (run_model (run_contexts
             (snd (with_run pname version metadata auto rta rtd
                     (\<lambda>r. then_stmt (pre r) (with_step r sname type rtb rtc sbody)) v))
             (next_run v))) = FAILURE"
proof -
  let ?r = "next_run v"
  let ?w1 = "snd (RunContext_init pname version metadata auto rta v)"
  let ?step = "with_step ?r sname type rtb rtc sbody"
  let ?body = "then_stmt (pre ?r) ?step"
  let ?w6 = "snd (?step w)"
  let ?run = "with_stmt (RunContext_enter ?r) (\<lambda>exc. RunContext_exit ?r exc rtd) ?body ?w1"
  have init: "fst (RunContext_init pname version metadata auto rta v) = ?r"
    by (simp add: RunContext_init_def Let_def)
  have run: "with_run pname version metadata auto rta rtd
               (\<lambda>r. then_stmt (pre r) (with_step r sname type rtb rtc sbody)) v = ?run"
    by (simp add: with_run_def split_def init)
  note sc = raising_step_scope[where sbody = sbody and w = w and r = "next_run v"
      and sname = sname and type = type and rtb = rtb and rtc = rtc and e = e, OF raises]
  have "?step w = (Inl e, ?w6)" using sc(1) by (simp add: prod_eq_iff)
  then have b: "?body (RunContext_enter ?r ?w1) = (Inl e, ?w6)"
    by (simp add: then_stmt_def pre)
  have 1: "fst ?run
      = Inl (if auto_send (run_contexts ?w6 ?r) \<and> \<not> sorted (attached_sequences ?r ?w6)
             then Exception ''ValidationError''
                    ''Steps must be in sequential order by sequence number''
             else case raised_by_delivery (auto_send (run_contexts ?w6 ?r)) rtd ?w6 of
                    None \<Rightarrow> e
                  | Some e' \<Rightarrow> e')"
    unfolding with_stmt_raise[where body = ?body and enter = "RunContext_enter ?r", OF b]
      RunContext_exit_result
    by (cases "raised_by_delivery (auto_send (run_contexts ?w6 ?r)) rtd ?w6") simp_all
  have w7: "snd ?run = snd (RunContext_exit ?r (Some e) rtd ?w6)"
    by (rule with_stmt_raise_world[where body = ?body and enter = "RunContext_enter ?r", OF b])
  have 2: "map_of (metadata_step (step_model (step_contexts (snd ?run) (next_step w))))
             ''exception''
       = Some (PDict [(''type'', PStr (type_name e)), (''message'', PStr (message e))])"
    unfolding w7 RunContext_exit_steps by (rule sc(2))
  have 3: "status (run_model (run_contexts (snd ?run) ?r)) = FAILURE"
    unfolding w7 by (simp add: RunContext_exit_status)
  show ?thesis unfolding run by (intro conjI 1 2 3)
qed

lemma raise_config_delivery:
  "raised_by_delivery True (unreachable t) (new_world (Some (test_config RAISE)))
     = Some (Exception ''ConnectError'' ''connection refused'')"
  by (simp add: raised_by_delivery_def get_config_def new_world_def)
     (simp add: raised_by_send_def test_config_def unreachable_def)

lemma log_config_delivery:
  "raised_by_delivery True (unreachable t) (new_world (Some (test_config LOG))) = None"
  by (simp add: raised_by_delivery_def get_config_def new_world_def)
     (simp add: raised_by_send_def test_config_def unreachable_def)

text \<open>
  A run with a first step that returns and a second step that raises, in log mode with
  an API that cannot be reached: the \<open>ValueError\<close> of the second step reaches the caller.
\<close>

theorem step_exception_recorded_witness:
  "fst (with_run ''error_pipeline'' ''1.0.0'' None True (unreachable 10) (unreachable 60)
          (\<lambda>r. then_stmt
                 (with_step r ''search'' SEARCH (unreachable 20) (unreachable 30)
                    (step_body [SetCandidates 0 12] None))
                 (with_step r ''will_fail'' CUSTOM (unreachable 40) (unreachable 50)
                    (step_body [SetReasoning ''About to raise an error'']
                       (Some (Exception ''ValueError'' ''Intentional test error'')))))
          (new_world (Some (test_config LOG))))
     = Inl (Exception ''ValueError'' ''Intentional test error'')"
proof -
  let ?w0 = "new_world (Some (test_config LOG))"
  let ?e = "Exception ''ValueError'' ''Intentional test error''"
  let ?r = "next_run ?w0"
  let ?w2 = "RunContext_enter ?r
               (snd (RunContext_init ''error_pipeline'' ''1.0.0'' None True (unreachable 10) ?w0))"
  let ?pre = "\<lambda>r. with_step r ''search'' SEARCH (unreachable 20) (unreachable 30)
                    (step_body [SetCandidates 0 12] None)"
  let ?sbody = "step_body [SetReasoning ''About to raise an error''] (Some ?e)"
  let ?step = "with_step ?r ''will_fail'' CUSTOM (unreachable 40) (unreachable 50) ?sbody"
  obtain res1 wa where a: "?pre ?r ?w2 = (res1, wa)" by (cases "?pre ?r ?w2")
  note eff1 = with_step_effect[OF a]
  have pre: "?pre ?r ?w2 = (Inr (), wa)" using a eff1(1) by simp
  obtain res2 w6 where b: "?step wa = (res2, w6)" by (cases "?step wa")
  note eff2 = with_step_effect[OF b]
  have raises: "fst (?sbody (next_step wa)
                  (StepContext_enter (next_step wa) (unreachable 40)
                     (snd (RunContext_step ?r ''will_fail'' CUSTOM wa)))) = Inl ?e"
    by (simp add: step_body_def)
  have w2: "steps (run_contexts ?w2 ?r) = []" "sequence_counter (run_contexts ?w2 ?r) = 0"
    "auto_send (run_contexts ?w2 ?r) = True" "config_global ?w2 = Some (test_config LOG)"
    by (simp_all add: RunContext_init_def RunContext_enter_def Let_def new_world_def)
  have ne: "next_step ?w2 \<noteq> next_step wa" using eff1(5) by simp
  have s0: "sequence (step_model (step_contexts w6 (next_step ?w2))) = 0"
    using eff2(4) ne eff1(3) w2(2) by simp
  have s1: "sequence (step_model (step_contexts w6 (next_step wa))) = 1"
    using eff2(3) eff1(2) w2(2) by simp
  have st: "steps (run_contexts w6 ?r) = [next_step ?w2, next_step wa]"
    using eff2(2) eff1(2) w2(1) by simp
  have att: "attached_sequences ?r w6 = [0, 1]"
    unfolding attached_sequences_def st using s0 s1 by simp
  have cfg: "config_global w6 = config_global ?w0"
    using eff2(9) eff1(9) w2(4) by (simp add: new_world_def)
  have del: "raised_by_delivery True (unreachable 60) w6 = None"
    using log_config_delivery[of 60] cfg by (simp add: raised_by_delivery_def)
  have au: "auto_send (run_contexts w6 ?r) = True"
    using eff2(2) eff1(2) w2(3) by simp
  have w6: "snd (?step wa) = w6" using b by simp
  from step_exception_recorded[where pre = ?pre and sbody = ?sbody and v = ?w0 and w = wa
      and rtd = "unreachable 60" and rtc = "unreachable 50", OF pre raises, THEN conjunct1]
  show ?thesis unfolding w6 au att del by simp
qed

text \<open>
  The same program in raise mode, with synchronous delivery and an API that cannot be
  reached: what reaches the caller of the run scope is the transport's exception, not
  the \<open>ValueError\<close> raised in the step.
\<close>

theorem step_exception_replaced:
  "fst (with_run ''error_pipeline'' ''1.0.0'' None True (unreachable 10) (unreachable 40)
          (\<lambda>r. with_step r ''will_fail'' CUSTOM (unreachable 20) (unreachable 30)
                 (step_body [SetReasoning ''About to raise an error'']
                    (Some (Exception ''ValueError'' ''Intentional test error''))))
          (new_world (Some (test_config RAISE))))
     = Inl (Exception ''ConnectError'' ''connection refused'')"
  using failing_step_effect [of "''error_pipeline''" "''1.0.0''" None True "unreachable 10"
      "unreachable 40" "''will_fail''" CUSTOM "unreachable 20" "unreachable 30"
      "[SetReasoning ''About to raise an error'']"
      "Exception ''ValueError'' ''Intentional test error''" "new_world (Some (test_config RAISE))"]
  by (simp add: raise_config_delivery)

lemma with_stmt_world:
  "body (enter w) = (res, w1) \<Longrightarrow>
     snd (with_stmt enter exit body w)
       = snd (exit (case res of Inl e \<Rightarrow> Some e | Inr u \<Rightarrow> None) w1)"
  by (cases res; cases "exit (case res of Inl e \<Rightarrow> Some e | Inr u \<Rightarrow> None) w1")
     (auto simp: with_stmt_def split: sum.splits)

lemma RunContext_exit_runs:
  "run_contexts (snd (RunContext_exit r exc rt w)) =
     (run_contexts w)(r := (run_contexts w r)
        \<lparr>run_model := mark_complete (run_model (run_contexts w r))
                        (if exc = None then SUCCESS else FAILURE) None (clock rt)\<rparr>)"
proof -
  let ?st = "if exc = None then SUCCESS else FAILURE"
  let ?rc = "(run_contexts w r)\<lparr>run_model := mark_complete (run_model (run_contexts w r)) ?st None (clock rt)\<rparr>"
  let ?w = "w\<lparr>run_contexts := (run_contexts w)(r := ?rc)\<rparr>"
  show ?thesis
  proof (cases "auto_send (run_contexts w r)")
    case False
    then show ?thesis by (simp add: RunContext_exit_def Let_def)
  next
    case True
    show ?thesis
    proof (cases "IngestPayload_init (run_model ?rc) (map (\<lambda>s. step_model (step_contexts ?w s)) (steps ?rc))")
      case (Inl e)
      then show ?thesis using True by (simp add: RunContext_exit_def Let_def)
    next
      case (Inr payload)
      obtain res w' where s: "send_trace payload rt ?w = (res, w')"
        by (cases "send_trace payload rt ?w")
      from send_trace_frame[OF s] have "run_contexts w' = run_contexts ?w" by simp
      then show ?thesis using True Inr s
        by (cases res) (simp_all add: RunContext_exit_def Let_def)
    qed
  qed
qed

lemma RunContext_exit_attached:
  "attached_sequences r' (snd (RunContext_exit r exc rt w)) = attached_sequences r' w"
  by (simp add: attached_sequences_def RunContext_exit_runs RunContext_exit_steps)

text \<open>
  Steps run one after the other keep the attached sequence numbers equal to
  \<open>0, ..., n - 1\<close>, \<open>n\<close> being the run's counter.
\<close>

lemma sequential_steps_sequences:
  assumes "sequential_steps specs rt r w = (res, w')"
    and "attached_sequences r w = map int [0..<n]"
    and "sequence_counter (run_contexts w r) = int n"
    and "\<forall>s \<in> set (steps (run_contexts w r)). s < next_step w"
  shows "\<exists>m. attached_sequences r w' = map int [0..<m]
            \<and> sequence_counter (run_contexts w' r) = int m
            \<and> m \<le> n + length specs \<and> (res = Inr () \<longrightarrow> m = n + length specs)"
  using assms
proof (induction specs arbitrary: w n)
  case Nil
  then show ?case by auto
next
  case (Cons spec specs)
  obtain name type calls raised where spec: "spec = (name, type, calls, raised)"
    by (cases spec) auto
  obtain sres w1 where st: "with_step r name type rt rt (step_body calls raised) w = (sres, w1)"
    by (cases "with_step r name type rt rt (step_body calls raised) w")
  note eff = with_step_effect[OF st]
  have old: "\<forall>s \<in> set (steps (run_contexts w r)). step_contexts w1 s = step_contexts w s"
    using eff(4) Cons.prems(4) by auto
  have m1: "map (\<lambda>s. sequence (step_model (step_contexts w1 s))) (steps (run_contexts w r))
          = map (\<lambda>s. sequence (step_model (step_contexts w s))) (steps (run_contexts w r))"
    by (rule map_cong) (simp_all add: old)
  have m: "map (\<lambda>s. sequence (step_model (step_contexts w1 s))) (steps (run_contexts w r))
          = map int [0..<n]"
    unfolding m1 using Cons.prems(2) by (simp only: attached_sequences_def)
  have "attached_sequences r w1
          = map (\<lambda>s. sequence (step_model (step_contexts w1 s))) (steps (run_contexts w r))
            @ [sequence (step_model (step_contexts w1 (next_step w)))]"
    by (simp add: attached_sequences_def eff(2))
  then have att: "attached_sequences r w1 = map int [0..<Suc n]"
    unfolding m eff(3) Cons.prems(3) by simp
  have cnt: "sequence_counter (run_contexts w1 r) = int (Suc n)"
    using eff(2) Cons.prems(3) by simp
  have fresh: "\<forall>s \<in> set (steps (run_contexts w1 r)). s < next_step w1"
    using eff(2,5) Cons.prems(4) by auto
  show ?case
  proof (cases raised)
    case None
    then have "sres = Inr ()" using eff(1) by simp
    then have "sequential_steps specs rt r w1 = (res, w')"
      using Cons.prems(1) spec st by simp
    from Cons.IH[OF this att cnt fresh] show ?thesis by auto
  next
    case (Some e)
    then have "sres = Inl e" using eff(1) by simp
    then have "res = Inl e" "w' = w1" using Cons.prems(1) spec st by simp_all
    then show ?thesis using att cnt by (intro exI[of _ "Suc n"]) auto
  qed
qed

lemma sequential_steps_return:
  "\<forall>spec \<in> set specs. snd (snd (snd spec)) = None \<Longrightarrow>
     fst (sequential_steps specs rt r w) = Inr ()"
proof (induction specs arbitrary: w)
  case Nil
  then show ?case by simp
next
  case (Cons spec specs)
  obtain name type calls raised where spec: "spec = (name, type, calls, raised)"
    by (cases spec) auto
  with Cons.prems have none: "raised = None" by simp
  obtain sres w1 where st: "with_step r name type rt rt (step_body calls raised) w = (sres, w1)"
    by (cases "with_step r name type rt rt (step_body calls raised) w")
  from with_step_effect(1)[OF st] none have "sres = Inr ()" by simp
  then show ?case using Cons spec st by simp
qed

text \<open>
  A run whose body runs \<open>n\<close> steps one after the other, none of them raising, ends with
  the attached sequence numbers \<open>0, ..., n - 1\<close>.
\<close>

lemma sequential_run_sequences:
  assumes "\<forall>spec \<in> set specs. snd (snd (snd spec)) = None"
  shows "attached_sequences (next_run w)
           (snd (with_run name version metadata auto rt0 rt1 (sequential_steps specs rt) w))
         = map int [0..<length specs]"
proof -
  let ?r = "next_run w"
  let ?w1 = "snd (RunContext_init name version metadata auto rt0 w)"
  let ?w2 = "RunContext_enter ?r ?w1"
  have init: "fst (RunContext_init name version metadata auto rt0 w) = ?r"
    by (simp add: RunContext_init_def Let_def)
  have w2: "attached_sequences ?r ?w2 = map int [0..<0]"
    "sequence_counter (run_contexts ?w2 ?r) = int 0"
    "\<forall>s \<in> set (steps (run_contexts ?w2 ?r)). s < next_step ?w2"
    by (simp_all add: attached_sequences_def RunContext_init_def RunContext_enter_def Let_def)
  obtain res w3 where b: "sequential_steps specs rt ?r ?w2 = (res, w3)"
    by (cases "sequential_steps specs rt ?r ?w2")
  have "res = Inr ()" using sequential_steps_return[OF assms, of rt ?r ?w2] b by simp
  with sequential_steps_sequences[OF b w2] have a3: "attached_sequences ?r w3 = map int [0..<length specs]"
    by auto
  have "snd (with_run name version metadata auto rt0 rt1 (sequential_steps specs rt) w)
          = snd (RunContext_exit ?r (case res of Inl e \<Rightarrow> Some e | Inr u \<Rightarrow> None) rt1 w3)"
    unfolding with_run_def split_def init
    by (rule with_stmt_world[where body = "sequential_steps specs rt ?r" and enter = "RunContext_enter ?r", OF b])
  then show ?thesis by (simp add: RunContext_exit_attached a3)
qed

text \<open>
  C2: with a step scope opened inside another, the inner step is created second and
  attached first, so the run's steps carry the sequence numbers \<open>1, 0\<close> in attachment
  order; and with \<open>auto_send\<close> on, the payload's own validator then rejects the list when
  the run scope is left.
\<close>

theorem nested_steps_out_of_order:
  "attached_sequences 0
     (snd (with_run ''pipeline'' ''1.0.0'' None False (unreachable 10) (unreachable 60)
        (\<lambda>r. with_step r ''outer'' CUSTOM (unreachable 20) (unreachable 50)
           (\<lambda>outer. with_step r ''inner'' CUSTOM (unreachable 30) (unreachable 40)
              (step_body [] None)))
        (new_world None))) = [1, 0]
   \<and> fst (with_run ''pipeline'' ''1.0.0'' None True (unreachable 10) (unreachable 60)
        (\<lambda>r. with_step r ''outer'' CUSTOM (unreachable 20) (unreachable 50)
           (\<lambda>outer. with_step r ''inner'' CUSTOM (unreachable 30) (unreachable 40)
              (step_body [] None)))
        (new_world None))
     = Inl (Exception ''ValidationError'' ''Steps must be in sequential order by sequence number'')"
  by (simp add: attached_sequences_def with_run_def with_step_def with_stmt_def step_body_def
        RunContext_init_def RunContext_enter_def RunContext_exit_def RunContext_step_def
        StepContext_enter_def StepContext_exit_def add_step_def update_step_model_def
        mark_complete_def new_world_def unreachable_def Let_def IngestPayload_init_def
        validate_steps_def)

subsection \<open>Nesting\<close>

lemma RunContext_enter_current:
  "current_run_context (RunContext_enter r w) = Some r"
  "previous_run_context (run_contexts (RunContext_enter r w) r) = current_run_context w"
  "r' \<noteq> r \<Longrightarrow> run_contexts (RunContext_enter r w) r' = run_contexts w r'"
  by (simp_all add: RunContext_enter_def Let_def)

text \<open>
  Run scopes \<open>a\<close> and \<open>b\<close>, \<open>b\<close> entered inside \<open>a\<close>: when the exit of \<open>b\<close> returns, \<open>a\<close> is the
  current run again, and when the exit of \<open>a\<close> returns after it, the current run is what
  it was before \<open>a\<close> was entered.
\<close>

lemma nested_runs_restore:
  assumes "a \<noteq> b"
    and b: "RunContext_exit b exc_b rt_b (RunContext_enter b (RunContext_enter a w)) = (Inr x, w1)"
    and a: "RunContext_exit a exc_a rt_a w1 = (Inr y, w2)"
  shows "get_current_run w1 = Some a" and "get_current_run w2 = get_current_run w"
proof -
  let ?w = "RunContext_enter b (RunContext_enter a w)"
  show "get_current_run w1 = Some a"
    using RunContext_exit_current[OF b] by (simp add: get_current_run_def RunContext_enter_current)
  have "run_contexts w1 = run_contexts (snd (RunContext_exit b exc_b rt_b ?w))" using b by simp
  then have "previous_run_context (run_contexts w1 a) = previous_run_context (run_contexts ?w a)"
    using assms(1) by (simp add: RunContext_exit_runs)
  also have "\<dots> = current_run_context w"
    using assms(1) by (simp add: RunContext_enter_current)
  finally show "get_current_run w2 = get_current_run w"
    using RunContext_exit_current[OF a] by (simp add: get_current_run_def)
qed

text \<open>Step scopes: the exit of a step scope cannot raise, and restores always.\<close>

lemma nested_steps_restore:
  assumes "s \<noteq> t"
  shows "get_current_step (snd (StepContext_exit t exc_t rt2
            (StepContext_enter t rt1 (StepContext_enter s rt0 w)))) = Some s"
    and "get_current_step (snd (StepContext_exit s exc_s rt3
            (snd (StepContext_exit t exc_t rt2
                    (StepContext_enter t rt1 (StepContext_enter s rt0 w))))))
          = get_current_step w"
    and "\<exists>w'. StepContext_exit s exc rt w = (Inr False, w')"
  using assms
  by (auto simp: get_current_step_def StepContext_enter_def StepContext_exit_def add_step_def
        update_step_model_def Let_def split: option.splits)

text \<open>
  C4: run \<open>B\<close> entered inside run \<open>A\<close>, in raise mode with synchronous delivery and an API
  that cannot be reached. The exit of \<open>B\<close> raises the transport's exception before it
  restores the context variable: the current run is still \<open>B\<close>, not \<open>A\<close>.
\<close>

theorem run_context_not_restored:
  "fst (RunContext_exit 1 None (unreachable 30)
     (RunContext_enter 1 (snd (RunContext_init ''B'' ''1.0.0'' None True (unreachable 20)
        (RunContext_enter 0 (snd (RunContext_init ''A'' ''1.0.0'' None True (unreachable 10)
           (new_world (Some (test_config RAISE))))))))))
     = Inl (Exception ''ConnectError'' ''connection refused'')
   \<and> get_current_run (snd (RunContext_exit 1 None (unreachable 30)
     (RunContext_enter 1 (snd (RunContext_init ''B'' ''1.0.0'' None True (unreachable 20)
        (RunContext_enter 0 (snd (RunContext_init ''A'' ''1.0.0'' None True (unreachable 10)
           (new_world (Some (test_config RAISE)))))))))))
     = Some 1
   \<and> get_current_run
     (RunContext_enter 0 (snd (RunContext_init ''A'' ''1.0.0'' None True (unreachable 10)
           (new_world (Some (test_config RAISE)))))) = Some 0"
  by (simp add: get_current_run_def RunContext_init_def RunContext_enter_def RunContext_exit_def
        mark_complete_def new_world_def unreachable_def Let_def IngestPayload_init_def
        validate_steps_def send_trace_def send_def handle_failure_def get_config_def
        test_config_def)

end
